theory Spec2Isabelle
  imports Main
begin

section \<open>Strings and front-matter values\<close>

text \<open>
  JavaScript strings are modelled as \<^typ>\<open>string\<close>, one \<^typ>\<open>char\<close> per code unit.
  The model is exact for text whose code units fit eight bits; every character the
  script's regular expressions and literals name is ASCII.
\<close>

abbreviation LF :: char where "LF \<equiv> CHR 0x0A"
abbreviation CR :: char where "CR \<equiv> CHR 0x0D"
abbreviation DQ :: char where "DQ \<equiv> CHR 0x22"
abbreviation SQ :: char where "SQ \<equiv> CHR 0x27"
abbreviation BQ :: char where "BQ \<equiv> CHR 0x60"
abbreviation BSL :: char where "BSL \<equiv> CHR 0x5C"

text \<open>
  A front-matter value as the YAML loader hands it over: absent, null, a boolean or a
  string. \<open>truthy\<close> is JavaScript's ToBoolean, \<open>to_string\<close> the conversion a template
  literal applies.
\<close>

datatype jsval = JUndefined | JNull | JBool bool | JStr string

fun truthy :: "jsval \<Rightarrow> bool" where
  "truthy JUndefined = False"
| "truthy JNull = False"
| "truthy (JBool b) = b"
| "truthy (JStr s) = (s \<noteq> [])"

fun to_string :: "jsval \<Rightarrow> string" where
  "to_string JUndefined = ''undefined''"
| "to_string JNull = ''null''"
| "to_string (JBool b) = (if b then ''true'' else ''false'')"
| "to_string (JStr s) = s"

section \<open>Regular expressions\<close>

text \<open>
  The fragment of JavaScript regular expressions the script uses: literal text, a
  character class under a greedy quantifier \<open>{mn,mx}\<close>, sequence, alternation, capture
  groups and the anchors \<open>^\<close> and \<open>$\<close> (without the \<open>m\<close> flag; no expression of the
  script that carries \<open>m\<close> has an anchor, so the flag changes nothing).

  \<open>ends r b s\<close> lists every way \<open>r\<close> matches a prefix of \<open>s\<close>, in the order the
  backtracking matcher tries them, as the number of characters consumed and the
  captures made; \<open>b\<close> says that \<open>s\<close> is the whole input. The head of the list is the
  match JavaScript reports.
\<close>

type_synonym caps = "(nat \<times> string) list"

datatype re =
    Lit string
  | Rep nat "nat option" "char \<Rightarrow> bool"
  | Seq re re
  | Alt re re
  | Grp nat re
  | Bol
  | Eos

abbreviation Star :: "(char \<Rightarrow> bool) \<Rightarrow> re" where "Star p \<equiv> Rep 0 None p"
abbreviation Plus :: "(char \<Rightarrow> bool) \<Rightarrow> re" where "Plus p \<equiv> Rep 1 None p"
abbreviation Opt :: "(char \<Rightarrow> bool) \<Rightarrow> re" where "Opt p \<equiv> Rep 0 (Some 1) p"
abbreviation One :: "(char \<Rightarrow> bool) \<Rightarrow> re" where "One p \<equiv> Rep 1 (Some 1) p"

fun seqs :: "re list \<Rightarrow> re" where
  "seqs [] = Lit []"
| "seqs [r] = r"
| "seqs (r # rs) = Seq r (seqs rs)"

definition rep_count :: "nat option \<Rightarrow> (char \<Rightarrow> bool) \<Rightarrow> string \<Rightarrow> nat" where
  "rep_count mx p s =
     (let k = length (takeWhile p s) in case mx of None \<Rightarrow> k | Some m \<Rightarrow> min k m)"

fun ends :: "re \<Rightarrow> bool \<Rightarrow> string \<Rightarrow> (nat \<times> caps) list" where
  "ends (Lit l) b s = (if take (length l) s = l then [(length l, [])] else [])"
| "ends (Rep mn mx p) b s = map (\<lambda>n. (n, [])) (rev [mn ..< Suc (rep_count mx p s)])"
| "ends (Seq r1 r2) b s =
     concat (map (\<lambda>(n1, c1).
        map (\<lambda>(n2, c2). (n1 + n2, c1 @ c2)) (ends r2 (b \<and> n1 = 0) (drop n1 s)))
        (ends r1 b s))"
| "ends (Alt r1 r2) b s = ends r1 b s @ ends r2 b s"
| "ends (Grp g r) b s = map (\<lambda>(n, c). (n, c @ [(g, take n s)])) (ends r b s)"
| "ends Bol b s = (if b then [(0, [])] else [])"
| "ends Eos b s = (if s = [] then [(0, [])] else [])"

definition match_at :: "re \<Rightarrow> bool \<Rightarrow> string \<Rightarrow> (nat \<times> caps) option" where
  "match_at r b s = (case ends r b s of [] \<Rightarrow> None | m # _ \<Rightarrow> Some m)"

text \<open>
  The search of \<open>RegExp.prototype.exec\<close>: try the match at the current position and
  move one character on when it fails. The result is the offset of the match from
  the start of \<open>s\<close>, its length and its captures.
\<close>

fun search :: "re \<Rightarrow> bool \<Rightarrow> string \<Rightarrow> (nat \<times> nat \<times> caps) option" where
  "search r b [] = map_option (\<lambda>(n, c). (0, n, c)) (match_at r b [])"
| "search r b (x # xs) =
     (case match_at r b (x # xs) of
        Some (n, c) \<Rightarrow> Some (0, n, c)
      | None \<Rightarrow> map_option (\<lambda>(k, n, c). (Suc k, n, c)) (search r False xs))"

text \<open>
  A match object: \<open>index\<close>, the length of \<open>m[0]\<close> and the capture groups. \<open>exec\<close> is
  \<open>regexp.exec(string)\<close> of a regular expression with the \<open>g\<close> flag whose \<open>lastIndex\<close>
  is \<open>li\<close>; it returns the match (or null) and the new \<open>lastIndex\<close>.
\<close>

record rmatch =
  index :: nat
  mlen :: nat
  groups :: caps

definition exec :: "re \<Rightarrow> string \<Rightarrow> nat \<Rightarrow> rmatch option \<times> nat" where
  "exec r s li =
     (if length s < li then (None, 0)
      else case search r (li = 0) (drop li s) of
        None \<Rightarrow> (None, 0)
      | Some (k, n, c) \<Rightarrow> (Some \<lparr>index = li + k, mlen = n, groups = c\<rparr>, li + k + n))"

text \<open>\<open>m[g]\<close>: the text group \<open>g\<close> captured, undefined (\<open>None\<close>) when it took no part.\<close>

definition grp :: "rmatch \<Rightarrow> nat \<Rightarrow> string option" where
  "grp m g = map_of (groups m) g"

section \<open>Image references\<close>

definition mdImgRegex :: re where
  "mdImgRegex = seqs [Lit ''!['', Star (\<lambda>c. c \<noteq> CHR '']''), Lit ''](''
     , Grp 1 (Star (\<lambda>c. c \<noteq> CHR '')'')), Lit '')'']"

definition dot :: "char \<Rightarrow> bool" where
  "dot c = (c \<noteq> LF \<and> c \<noteq> CR)"

definition htmlImgRegex :: re where
  "htmlImgRegex = seqs [Lit ''<img'', Star dot, Lit ''src='',
     Alt (seqs [Lit [DQ], Grp 1 (Star (\<lambda>c. c \<noteq> DQ)), Lit [DQ]])
         (seqs [Lit [SQ], Grp 2 (Star (\<lambda>c. c \<noteq> SQ)), Lit [SQ]])]"

text \<open>\<open>m[1] || m[2]\<close>: the empty string is falsy, so an empty first group gives \<open>m[2]\<close>.\<close>

definition pick :: "rmatch \<Rightarrow> string option" where
  "pick m = (case grp m 1 of Some s \<Rightarrow> (if s \<noteq> [] then Some s else grp m 2) | None \<Rightarrow> grp m 2)"

text \<open>
  The loop of \<open>getMatches\<close>, with \<open>regexp.lastIndex\<close> as the argument \<open>li\<close>; it returns
  the matches pushed and the \<open>lastIndex\<close> the regular expression is left with.
\<close>

function getMatches_loop :: "re \<Rightarrow> string \<Rightarrow> nat \<Rightarrow> string option list \<Rightarrow> string option list \<times> nat" where
  "getMatches_loop r s li matches =
     (case exec r s li of
        (None, li') \<Rightarrow> (matches, li')
      | (Some m, li') \<Rightarrow>
          getMatches_loop r s (if index m = li' then li' + 1 else li') (matches @ [pick m]))"
  by pat_completeness auto
termination
  by (relation "measure (\<lambda>(r, s, li, matches). Suc (length s) - li)")
     (auto simp: exec_def split: if_splits option.splits)

declare getMatches_loop.simps [simp del]

text \<open>
  The two regular expressions are module constants whose \<open>lastIndex\<close> starts at 0 and
  is back at 0 whenever the loop has ended, so every call starts at 0.
\<close>

definition getMatches :: "string \<Rightarrow> re \<Rightarrow> string option list" where
  "getMatches s r = fst (getMatches_loop r s 0 [])"

definition extractImageUrls :: "string \<Rightarrow> string option list" where
  "extractImageUrls content = getMatches content mdImgRegex @ getMatches content htmlImgRegex"

section \<open>String replacement\<close>

text \<open>
  \<open>string.replace(regexp, replacement)\<close> for a regular expression with the \<open>g\<close> flag:
  the matches are collected by repeated \<open>exec\<close> from \<open>lastIndex = 0\<close>, stepping over an
  empty match, and the result is assembled from the text between the matches and the
  replacement. No replacement text the script passes with a regular expression
  contains \<open>$\<close>, so it is inserted as it is.
\<close>

function matches_g :: "re \<Rightarrow> string \<Rightarrow> nat \<Rightarrow> rmatch list" where
  "matches_g r s li =
     (case exec r s li of
        (None, li') \<Rightarrow> []
      | (Some m, li') \<Rightarrow> m # matches_g r s (if mlen m = 0 then li' + 1 else li'))"
  by pat_completeness auto
termination
  by (relation "measure (\<lambda>(r, s, li). Suc (length s) - li)")
     (auto simp: exec_def split: if_splits option.splits)

declare matches_g.simps [simp del]

fun splice :: "string \<Rightarrow> string \<Rightarrow> nat \<Rightarrow> rmatch list \<Rightarrow> string" where
  "splice s repl pos [] = drop pos s"
| "splice s repl pos (m # ms) =
     (if pos \<le> index m
      then take (index m - pos) (drop pos s) @ repl @ splice s repl (index m + mlen m) ms
      else splice s repl pos ms)"

definition replace_g :: "re \<Rightarrow> string \<Rightarrow> string \<Rightarrow> string" where
  "replace_g r repl s = splice s repl 0 (matches_g r s 0)"

text \<open>The same for a regular expression without the \<open>g\<close> flag: the first match only.\<close>

definition replace_re :: "re \<Rightarrow> string \<Rightarrow> string \<Rightarrow> string" where
  "replace_re r repl s =
     (case search r True s of
        None \<Rightarrow> s
      | Some (k, n, c) \<Rightarrow> take k s @ repl @ drop (k + n) s)"

text \<open>
  \<open>string.replace(pattern, replacement)\<close> for a string pattern: the first occurrence
  of the pattern is replaced, and the replacement text is expanded by GetSubstitution
  (\<open>$$\<close>, \<open>$&\<close>, \<open>$`\<close> and \<open>$'\<close>; there are no capture groups, so \<open>$1\<close> stays as it is).
\<close>

fun index_of :: "string \<Rightarrow> string \<Rightarrow> nat option" where
  "index_of pat [] = (if pat = [] then Some 0 else None)"
| "index_of pat (x # xs) =
     (if take (length pat) (x # xs) = pat then Some 0 else map_option Suc (index_of pat xs))"

fun get_substitution :: "string \<Rightarrow> string \<Rightarrow> string \<Rightarrow> string \<Rightarrow> string" where
  "get_substitution matched preceding following (c1 # c2 # cs) =
     (if c1 = CHR ''$'' \<and> c2 = CHR ''$'' then CHR ''$'' # get_substitution matched preceding following cs
      else if c1 = CHR ''$'' \<and> c2 = CHR ''&'' then matched @ get_substitution matched preceding following cs
      else if c1 = CHR ''$'' \<and> c2 = BQ then preceding @ get_substitution matched preceding following cs
      else if c1 = CHR ''$'' \<and> c2 = SQ then following @ get_substitution matched preceding following cs
      else c1 # get_substitution matched preceding following (c2 # cs))"
| "get_substitution matched preceding following cs = cs"

definition replace_str :: "string \<Rightarrow> string \<Rightarrow> string \<Rightarrow> string" where
  "replace_str pat repl s =
     (case index_of pat s of
        None \<Rightarrow> s
      | Some p \<Rightarrow>
          take p s @ get_substitution pat (take p s) (drop (p + length pat) s) repl
            @ drop (p + length pat) s)"

section \<open>Content transformers\<close>

record card =
  url :: jsval

record media =
  card :: "card option"

text \<open>
  The post as \<open>yamlFront.safeLoadFront\<close> returns it: the front-matter keys the script
  reads, and the body under \<open>__content\<close>. \<open>media\<close> and \<open>media.card\<close> are \<open>None\<close> when
  they are absent or not objects.
\<close>

record post =
  title :: jsval
  date :: jsval
  permalink :: jsval
  author :: jsval
  published :: jsval
  media :: "media option"
  content :: string

definition handlePostAuthors :: "post \<Rightarrow> string \<Rightarrow> string" where
  "handlePostAuthors p c =
     (if truthy (author p) then ''By: '' @ to_string (author p) @ [LF, LF] @ c else c)"

definition moveCardImageToContent :: "post \<Rightarrow> string \<Rightarrow> string" where
  "moveCardImageToContent p c =
     (case media p of
        None \<Rightarrow> c
      | Some m \<Rightarrow>
          (case card m of
             None \<Rightarrow> c
           | Some cd \<Rightarrow>
               (if truthy (url cd) then ''![]('' @ to_string (url cd) @ '')'' @ [LF, LF] @ c
                else c)))"

definition in_range :: "char \<Rightarrow> char \<Rightarrow> char \<Rightarrow> bool" where
  "in_range lo hi c = ((of_char lo :: nat) \<le> of_char c \<and> (of_char c :: nat) \<le> of_char hi)"

definition liquid_class_char :: "char \<Rightarrow> bool" where
  "liquid_class_char c =
     (in_range CHR ''a'' CHR ''z'' c \<or> in_range CHR ''0'' CHR ''9'' c \<or> c = CHR ''-'' \<or> c = CHR ''_'')"

abbreviation is_space :: "char \<Rightarrow> bool" where "is_space \<equiv> (\<lambda>c. c = CHR '' '')"

definition liquidClassRegex :: re where
  "liquidClassRegex = seqs [Lit ''{: '', One dot, Plus liquid_class_char, Opt is_space, Lit ''}'']"

definition handleLiquidClasses :: "string \<Rightarrow> string" where
  "handleLiquidClasses c = replace_g liquidClassRegex [] c"

definition highlightRegex :: re where
  "highlightRegex = seqs [Lit ''{%'', Opt is_space, Lit ''highlight'', Opt is_space, Star dot,
     Opt is_space, Lit ''%}'']"

definition endhighlightRegex :: re where
  "endhighlightRegex = seqs [Lit ''{%'', Opt is_space, Lit ''endhighlight'', Opt is_space, Lit ''%}'']"

definition handleCodeBlocks :: "string \<Rightarrow> string" where
  "handleCodeBlocks c = replace_g endhighlightRegex [BQ, BQ, BQ] (replace_g highlightRegex [BQ, BQ, BQ] c)"

definition lineBreaksRegex :: re where
  "lineBreaksRegex = Rep 3 None (\<lambda>c. c = LF)"

definition handleLineBreaks :: "string \<Rightarrow> string" where
  "handleLineBreaks c = replace_g lineBreaksRegex [LF, LF] c"

definition siteUrlRegex :: re where
  "siteUrlRegex = seqs [Lit ''{{'', Opt is_space, Lit ''site'', One dot, Lit ''baseurl'',
     Opt is_space, Lit ''}}'']"

definition handleSiteUrl :: "string \<Rightarrow> string" where
  "handleSiteUrl c = replace_g siteUrlRegex [] c"

text \<open>
  The stages \<open>main\<close> applies to a post before the image-upload pass, in its order:
  card image, site URL, author, liquid classes, code blocks, line breaks.
\<close>

definition transformContent :: "post \<Rightarrow> string" where
  "transformContent p =
     handleLineBreaks (handleCodeBlocks (handleLiquidClasses
       (handlePostAuthors p (handleSiteUrl (moveCardImageToContent p (content p))))))"

section \<open>The world outside the script\<close>

text \<open>
  What the script cannot decide by itself is a field of \<open>env\<close>: the command line, the
  environment variables, and the answers of the libraries and services it calls
  (\<open>glob.sync\<close>, \<open>url.parse(..).hostname\<close>, \<open>url.resolve\<close>, the front-matter loader,
  \<open>new Date\<close>, the local image mirror, S3 and the Medium API). A service answers a
  request at a moment, the number of events of the run so far.
\<close>

datatype exn = TypeError | RangeError | FsError | YamlError | S3Error | FetchError

datatype abort = Exit nat | Throw exn

text \<open>A valid \<open>Date\<close>, as the observations the script makes of it.\<close>

record jsdate =
  getFullYear :: nat
  getMonth :: nat
  getDate :: nat
  toISOString :: string

record s3params =
  Body :: string
  Bucket :: string
  Key :: string

record mediumPost =
  mp_title :: jsval
  contentFormat :: string
  publishedAt :: string
  mp_content :: string

text \<open>
  A response of the Medium API after \<open>res.json()\<close>: \<open>errors\<close> holds the messages of
  the errors array when there is one, \<open>data\<close> the payload when there is one.
\<close>

record 'a response =
  errors :: "string list option"
  data :: "'a option"

record post_data =
  data_url :: "string option"

record user_data =
  user_id :: string

record publication =
  pub_name :: string
  pub_id :: string

record env =
  argv :: "string list"
  AWS_ACCESS_KEY_ID :: "string option"
  AWS_SECRET_ACCESS_KEY :: "string option"
  AWS_S3_BUCKET :: "string option"
  MEDIUM_TOKEN :: "string option"
  MEDIUM_PUB_ID :: "string option"
  glob_sync :: "string \<Rightarrow> string list"
  url_hostname :: "string \<Rightarrow> string option"
  url_resolve :: "string \<Rightarrow> string \<Rightarrow> string"
  safeLoadFront :: "string \<Rightarrow> post option"
  new_Date :: "jsval \<Rightarrow> jsdate option"
  read_image :: "string \<Rightarrow> string option"
  s3_putObject :: "nat \<Rightarrow> s3params \<Rightarrow> bool"
  api_me :: "nat \<Rightarrow> user_data response option"
  api_publications :: "nat \<Rightarrow> string \<Rightarrow> publication list response option"
  api_posts :: "nat \<Rightarrow> mediumPost \<Rightarrow> post_data response option"

text \<open>
  The events of a run, in order: the post the loop starts on, the requests sent to
  S3 and to Medium with their answers, the return of \<open>uploadPost\<close>, and the writes to
  the file system.
\<close>

datatype event =
    Handling string
  | S3Put s3params bool
  | MediumMe "user_data response option"
  | MediumPublications string "publication list response option"
  | MediumPost mediumPost "post_data response option"
  | UploadPostReturned mediumPost "post_data option"
  | FsWrite string string
  | FsAppend string string
  | FsUnlink string

record state =
  files :: "string \<Rightarrow> string option"
  trace :: "event list"

definition emit :: "event \<Rightarrow> state \<Rightarrow> state" where
  "emit ev st = st\<lparr>trace := trace st @ [ev]\<rparr>"

definition writeFileSync :: "string \<Rightarrow> string \<Rightarrow> state \<Rightarrow> state" where
  "writeFileSync path text st = emit (FsWrite path text) (st\<lparr>files := (files st)(path \<mapsto> text)\<rparr>)"

definition append_to :: "(string \<Rightarrow> string option) \<Rightarrow> string \<Rightarrow> string \<Rightarrow> (string \<Rightarrow> string option)" where
  "append_to fs path text = fs(path \<mapsto> (case fs path of None \<Rightarrow> text | Some old \<Rightarrow> old @ text))"

definition appendFileSync :: "string \<Rightarrow> string \<Rightarrow> state \<Rightarrow> state" where
  "appendFileSync path text st = emit (FsAppend path text) (st\<lparr>files := append_to (files st) path text\<rparr>)"

definition unlinkSync :: "string \<Rightarrow> state \<Rightarrow> state" where
  "unlinkSync path st = emit (FsUnlink path) (st\<lparr>files := (files st)(path := None)\<rparr>)"

text \<open>\<open>process.argv[i]\<close>, undefined (\<open>None\<close>) past the end; a string is truthy when not empty.\<close>

definition arg :: "env \<Rightarrow> nat \<Rightarrow> string option" where
  "arg e i = (if i < length (argv e) then Some (argv e ! i) else None)"

definition present :: "string option \<Rightarrow> bool" where
  "present v = (case v of None \<Rightarrow> False | Some s \<Rightarrow> s \<noteq> [])"

definition dryrun :: "env \<Rightarrow> bool" where
  "dryrun e = (arg e 2 = Some ''--dryrun'')"

definition env_str :: "string option \<Rightarrow> string" where
  "env_str v = (case v of None \<Rightarrow> ''undefined'' | Some s \<Rightarrow> s)"

definition s3BaseUrl :: string where "s3BaseUrl = ''https://s3.amazonaws.com''"
definition devseedUrl :: string where "devseedUrl = ''https://developmentseed.org''"

section \<open>Filtering and uploading images\<close>

text \<open>
  \<open>url.parse\<close> throws a TypeError for an argument that is not a string, so an
  undefined element aborts the filter.
\<close>

fun filterUploadableImages :: "env \<Rightarrow> string option list \<Rightarrow> exn + string list" where
  "filterUploadableImages e [] = Inr []"
| "filterUploadableImages e (None # images) = Inl TypeError"
| "filterUploadableImages e (Some i # images) =
     (case filterUploadableImages e images of
        Inl x \<Rightarrow> Inl x
      | Inr kept \<Rightarrow>
          Inr (if \<not> present (url_hostname e i) \<or> url_hostname e i = Some ''developmentseed.org''
               then i # kept else kept))"

definition devseedPrefixRegex :: re where
  "devseedPrefixRegex = seqs [Bol, Lit ''http'', Opt (\<lambda>c. c = CHR ''s''), Lit ''://developmentseed'',
     One dot, Lit ''org'']"

text \<open>\<open>path.basename\<close> (POSIX): the part after the last slash, trailing slashes dropped.\<close>

definition basename :: "string \<Rightarrow> string" where
  "basename p = rev (takeWhile (\<lambda>c. c \<noteq> CHR ''/'') (dropWhile (\<lambda>c. c = CHR ''/'') (rev p)))"

definition uploadImage :: "env \<Rightarrow> state \<Rightarrow> string \<Rightarrow> (abort + string) \<times> state" where
  "uploadImage e st img0 =
     (let img = replace_re devseedPrefixRegex [] img0;
          imgKey = ''images/'' @ basename img
      in if dryrun e then (Inr (''http://localhost/test/'' @ imgKey), st)
         else case read_image e img of
           None \<Rightarrow> (Inl (Throw FsError), st)
         | Some body \<Rightarrow>
             (let params = \<lparr>Body = body, Bucket = env_str (AWS_S3_BUCKET e), Key = imgKey\<rparr>;
                  ok = s3_putObject e (length (trace st)) params;
                  st' = emit (S3Put params ok) st
              in if ok then (Inr (s3BaseUrl @ ''/'' @ env_str (AWS_S3_BUCKET e) @ ''/'' @ imgKey), st')
                 else (Inl (Throw S3Error), st')))"

fun upload_each :: "env \<Rightarrow> state \<Rightarrow> string list \<Rightarrow> string \<Rightarrow> (abort + string) \<times> state" where
  "upload_each e st [] c = (Inr c, st)"
| "upload_each e st (img # imgs) c =
     (case uploadImage e st img of
        (Inl a, st') \<Rightarrow> (Inl a, st')
      | (Inr newURL, st') \<Rightarrow> upload_each e st' imgs (replace_str img newURL c))"

definition handlePostContentImages :: "env \<Rightarrow> state \<Rightarrow> string \<Rightarrow> (abort + string) \<times> state" where
  "handlePostContentImages e st c =
     (case filterUploadableImages e (extractImageUrls c) of
        Inl x \<Rightarrow> (Inl (Throw x), st)
      | Inr imgsToUpload \<Rightarrow> upload_each e st imgsToUpload c)"

section \<open>Dates and original URLs\<close>

definition digit_char :: "char \<Rightarrow> bool" where
  "digit_char c = in_range CHR ''0'' CHR ''9'' c"

definition fileDateNameRegex :: re where
  "fileDateNameRegex = seqs [
     Grp 1 (seqs [Lit ''20'', Rep 2 (Some 2) digit_char, Lit ''-'', Rep 1 (Some 2) digit_char,
                  Lit ''-'', Rep 1 (Some 2) digit_char]),
     Lit ''-'', Grp 2 (Star dot), Lit ''.'', Plus (in_range CHR ''a'' CHR ''z''), Eos]"

text \<open>\<open>file.match(fileDateNameRegex)\<close>: the groups of the first match, or null.\<close>

definition match_file :: "string \<Rightarrow> caps option" where
  "match_file file = map_option (\<lambda>(k, n, c). c) (search fileDateNameRegex True file)"

function show_nat :: "nat \<Rightarrow> string" where
  "show_nat n = (if n < 10 then [char_of (48 + n)] else show_nat (n div 10) @ [char_of (48 + n mod 10)])"
  by pat_completeness auto
termination
  by (relation "measure id") auto

declare show_nat.simps [simp del]

text \<open>
  A \<open>Date\<close> is \<open>None\<close> when it is invalid (its time is NaN); the parts of an invalid
  date are NaN, which is not below 10.
\<close>

definition getDateParts :: "jsdate option \<Rightarrow> string list" where
  "getDateParts d =
     (case d of
        None \<Rightarrow> [''NaN'', ''NaN'', ''NaN'']
      | Some dt \<Rightarrow>
          (let y = getFullYear dt; m = getMonth dt + 1; d = getDate dt
           in [show_nat y,
               if m < 10 then ''0'' @ show_nat m else show_nat m,
               if d < 10 then ''0'' @ show_nat d else show_nat d]))"

definition getPostDate :: "env \<Rightarrow> string \<Rightarrow> post \<Rightarrow> exn + jsdate option" where
  "getPostDate e file p =
     (case (if truthy (date p) then new_Date e (date p) else None) of
        Some contentDate \<Rightarrow> Inr (Some contentDate)
      | None \<Rightarrow>
          (case match_file file of
             None \<Rightarrow> Inl TypeError
           | Some pieces \<Rightarrow>
               Inr (new_Date e (case map_of pieces 1 of None \<Rightarrow> JUndefined | Some s \<Rightarrow> JStr s))))"

fun join :: "string \<Rightarrow> string list \<Rightarrow> string" where
  "join sep [] = []"
| "join sep [x] = x"
| "join sep (x # xs) = x @ sep @ join sep xs"

definition getOriginalURL :: "env \<Rightarrow> string \<Rightarrow> post \<Rightarrow> exn + string" where
  "getOriginalURL e file p =
     (if truthy (permalink p) then
        (case permalink p of
           JStr l \<Rightarrow> Inr (url_resolve e devseedUrl l)
         | _ \<Rightarrow> Inl TypeError)
      else case match_file file of
        None \<Rightarrow> Inl TypeError
      | Some pieces \<Rightarrow>
          (case getPostDate e file p of
             Inl x \<Rightarrow> Inl x
           | Inr d \<Rightarrow>
               Inr (devseedUrl @ ''/blog/'' @ join ''/'' (getDateParts d) @ ''/''
                      @ (case map_of pieces 2 of None \<Rightarrow> ''undefined'' | Some t \<Rightarrow> t))))"

section \<open>Publishing\<close>

text \<open>\<open>handleMediumErrors\<close>: a response with an errors array ends the process with code 1.\<close>

definition handleMediumErrors :: "'a response \<Rightarrow> abort + unit" where
  "handleMediumErrors r = (case errors r of Some es \<Rightarrow> Inl (Exit 1) | None \<Rightarrow> Inr ())"

text \<open>
  \<open>String.prototype.toLowerCase\<close> on code units below 256: the letters A to Z and the
  Latin-1 capitals 0xC0 to 0xDE, the multiplication sign 0xD7 apart, move up by 32; every
  other code unit is its own lower case.
\<close>

definition lower_char :: "char \<Rightarrow> char" where
  "lower_char c =
     (if in_range CHR ''A'' CHR ''Z'' c \<or> (in_range (CHR 0xC0) (CHR 0xDE) c \<and> c \<noteq> CHR 0xD7)
      then char_of (of_char c + (32 :: nat)) else c)"

definition toLowerCase :: "string \<Rightarrow> string" where
  "toLowerCase s = map lower_char s"

text \<open>What \<open>uploadPost\<close> does before it returns; \<open>uploadPost\<close> adds the event of its return.\<close>

definition uploadPost_body :: "env \<Rightarrow> state \<Rightarrow> mediumPost \<Rightarrow> (abort + post_data option) \<times> state" where
  "uploadPost_body e st mp =
     (if dryrun e then
        (case mp_title mp of
           JStr t \<Rightarrow>
             (Inr (Some \<lparr>data_url = Some (''http://localhost/post/'' @ replace_str '' '' ''-'' (toLowerCase t))\<rparr>), st)
         | _ \<Rightarrow> (Inl (Throw TypeError), st))
      else
        (let res = api_posts e (length (trace st)) mp;
             st' = emit (MediumPost mp res) st
         in case res of
              None \<Rightarrow> (Inl (Throw FetchError), st')
            | Some r \<Rightarrow>
                (case handleMediumErrors r of
                   Inl a \<Rightarrow> (Inl a, st')
                 | Inr u \<Rightarrow> (Inr (data r), st'))))"

definition uploadPost :: "env \<Rightarrow> state \<Rightarrow> mediumPost \<Rightarrow> (abort + post_data option) \<times> state" where
  "uploadPost e st mp =
     (case uploadPost_body e st mp of
        (Inl a, st') \<Rightarrow> (Inl a, st')
      | (Inr d, st') \<Rightarrow> (Inr d, emit (UploadPostReturned mp d) st'))"

definition getMediumUserId :: "env \<Rightarrow> state \<Rightarrow> (abort + string) \<times> state" where
  "getMediumUserId e st =
     (let res = api_me e (length (trace st));
          st' = emit (MediumMe res) st
      in case res of
           None \<Rightarrow> (Inl (Throw FetchError), st')
         | Some r \<Rightarrow>
             (case handleMediumErrors r of
                Inl a \<Rightarrow> (Inl a, st')
              | Inr u \<Rightarrow>
                  (case data r of
                     None \<Rightarrow> (Inl (Throw TypeError), st')
                   | Some d \<Rightarrow> (Inr (user_id d), st'))))"

definition getMediumPublicationId :: "env \<Rightarrow> state \<Rightarrow> string \<Rightarrow> string \<Rightarrow> (abort + string) \<times> state" where
  "getMediumPublicationId e st userId pub =
     (let res = api_publications e (length (trace st)) userId;
          st' = emit (MediumPublications userId res) st
      in case res of
           None \<Rightarrow> (Inl (Throw FetchError), st')
         | Some r \<Rightarrow>
             (case handleMediumErrors r of
                Inl a \<Rightarrow> (Inl a, st')
              | Inr u \<Rightarrow>
                  (case data r of
                     None \<Rightarrow> (Inl (Throw TypeError), st')
                   | Some pubs \<Rightarrow>
                       (case find (\<lambda>p. pub_name p = pub) pubs of
                          None \<Rightarrow> (Inl (Throw TypeError), st')
                        | Some p \<Rightarrow> (Inr (pub_id p), st')))))"

section \<open>The ledger and the main loop\<close>

text \<open>\<open>string.split('\n')\<close>.\<close>

fun split_on :: "char \<Rightarrow> string \<Rightarrow> string list" where
  "split_on c [] = [[]]"
| "split_on c (x # xs) =
     (if x = c then [] # split_on c xs
      else case split_on c xs of
             [] \<Rightarrow> [[x]]
           | y # ys \<Rightarrow> (x # y) # ys)"

text \<open>
  The \<open>try\<close> block of \<open>getPostsFilesToProcess\<close>: the lines of the ledger file, none
  when the file cannot be read.
\<close>

definition read_completed :: "state \<Rightarrow> string \<Rightarrow> string list" where
  "read_completed st fileCompleted =
     (case files st fileCompleted of
        Some done \<Rightarrow> split_on LF done
      | None \<Rightarrow> [])"

definition getPostsFilesToProcess :: "env \<Rightarrow> state \<Rightarrow> string \<Rightarrow> string list" where
  "getPostsFilesToProcess e st fileCompleted =
     (if dryrun e \<and> present (arg e 3) then glob_sync e (env_str (arg e 3))
      else
        (let completed = read_completed st fileCompleted
         in take 5 (filter (\<lambda>f. f \<notin> set completed) (glob_sync e ''posts/blog-2018/*.*''))))"

text \<open>\<open>JSON.stringify\<close> of a string, and of the redirect record \<open>{from, to}\<close>.\<close>

definition hex_digit :: "nat \<Rightarrow> char" where
  "hex_digit n = (if n < 10 then char_of (48 + n) else char_of (87 + n))"

fun json_char :: "char \<Rightarrow> string" where
  "json_char c =
     (if c = DQ then [BSL, DQ]
      else if c = BSL then [BSL, BSL]
      else if c = CHR 0x08 then [BSL, CHR ''b'']
      else if c = CHR 0x0C then [BSL, CHR ''f'']
      else if c = LF then [BSL, CHR ''n'']
      else if c = CR then [BSL, CHR ''r'']
      else if c = CHR 0x09 then [BSL, CHR ''t'']
      else if (of_char c :: nat) < 32
        then [BSL, CHR ''u'', CHR ''0'', CHR ''0'', hex_digit (of_char c div 16), hex_digit (of_char c mod 16)]
      else [c])"

definition json_string :: "string \<Rightarrow> string" where
  "json_string s = [DQ] @ concat (map json_char s) @ [DQ]"

definition redirect_line :: "string \<Rightarrow> string option \<Rightarrow> string" where
  "redirect_line originalUrl to =
     ''{'' @ json_string ''from'' @ '':'' @ json_string originalUrl
       @ (case to of None \<Rightarrow> [] | Some u \<Rightarrow> '','' @ json_string ''to'' @ '':'' @ json_string u)
       @ ''}'' @ [LF]"

text \<open>
  One turn of the loop of \<open>main\<close> on \<open>file\<close>. \<open>Inr ()\<close> lets the loop go on (the post was
  skipped or migrated); \<open>Inl\<close> is \<open>process.exit\<close> or an exception nothing catches.
\<close>

definition process_file :: "env \<Rightarrow> string \<Rightarrow> string \<Rightarrow> state \<Rightarrow> string \<Rightarrow> (abort + unit) \<times> state" where
  "process_file e fileRedirect fileCompleted st0 file =
     (let st = emit (Handling file) st0 in
      case files st file of
        None \<Rightarrow> (Inl (Throw FsError), st)
      | Some text \<Rightarrow>
      (case safeLoadFront e text of
        None \<Rightarrow> (Inl (Throw YamlError), st)
      | Some p \<Rightarrow>
      if published p \<noteq> JUndefined \<and> \<not> truthy (published p) then (Inr (), st)
      else
      (case handlePostContentImages e st (transformContent p) of
        (Inl a, st1) \<Rightarrow> (Inl a, st1)
      | (Inr c, st1) \<Rightarrow>
      (case getOriginalURL e file p of
        Inl x \<Rightarrow> (Inl (Throw x), st1)
      | Inr originalUrl \<Rightarrow>
      (case getPostDate e file p of
        Inl x \<Rightarrow> (Inl (Throw x), st1)
      | Inr None \<Rightarrow> (Inl (Throw RangeError), st1)
      | Inr (Some d) \<Rightarrow>
      (let mp = \<lparr>mp_title = title p, contentFormat = ''markdown'',
                 publishedAt = toISOString d, mp_content = c\<rparr>
       in case uploadPost e st1 mp of
            (Inl a, st2) \<Rightarrow> (Inl a, st2)
          | (Inr None, st2) \<Rightarrow> (Inl (Throw TypeError), st2)
          | (Inr (Some uploadResult), st2) \<Rightarrow>
              (Inr (),
               appendFileSync fileCompleted (file @ [LF])
                 (appendFileSync fileRedirect (redirect_line originalUrl (data_url uploadResult)) st2))))))))"

fun main_loop :: "env \<Rightarrow> string \<Rightarrow> string \<Rightarrow> state \<Rightarrow> string list \<Rightarrow> (abort + unit) \<times> state" where
  "main_loop e fileRedirect fileCompleted st [] = (Inr (), st)"
| "main_loop e fileRedirect fileCompleted st (file # rest) =
     (case process_file e fileRedirect fileCompleted st file of
        (Inl a, st') \<Rightarrow> (Inl a, st')
      | (Inr u, st') \<Rightarrow> main_loop e fileRedirect fileCompleted st' rest)"

definition readOrEmpty :: "state \<Rightarrow> string \<Rightarrow> string" where
  "readOrEmpty st path = (case files st path of None \<Rightarrow> [] | Some text \<Rightarrow> text)"

text \<open>
  The two ledger files of a run: the live ones, or the disposable ones of a dry run.
\<close>

definition fileRedirect :: "env \<Rightarrow> string" where
  "fileRedirect e = (if dryrun e then ''dryrun-redirects.json'' else ''redirects.json'')"

definition fileCompleted :: "env \<Rightarrow> string" where
  "fileCompleted e = (if dryrun e then ''dryrun-upload-complete.csv'' else ''upload-complete.csv'')"

definition main :: "env \<Rightarrow> state \<Rightarrow> (abort + unit) \<times> state" where
  "main e st0 =
     (if arg e 2 = Some ''-p'' \<and> present (arg e 3) then
        (case getMediumUserId e st0 of
           (Inl a, st1) \<Rightarrow> (Inl a, st1)
         | (Inr userId, st1) \<Rightarrow>
             (case getMediumPublicationId e st1 userId (env_str (arg e 3)) of
                (Inl a, st2) \<Rightarrow> (Inl a, st2)
              | (Inr publicationId, st2) \<Rightarrow> (Inl (Exit 0), st2)))
      else if \<not> present (MEDIUM_PUB_ID e) then (Inl (Exit 1), st0)
      else
        (let st = (if dryrun e then
                     writeFileSync (fileCompleted e) (readOrEmpty st0 ''upload-complete.csv'')
                       (writeFileSync (fileRedirect e) (readOrEmpty st0 ''redirects.json'') st0)
                   else st0);
             files = getPostsFilesToProcess e st (fileCompleted e)
         in case main_loop e (fileRedirect e) (fileCompleted e) st files of
              (Inl a, st') \<Rightarrow> (Inl a, st')
            | (Inr u, st') \<Rightarrow>
                (if dryrun e then (Inr (), unlinkSync (fileCompleted e) (unlinkSync (fileRedirect e) st'))
                 else (Inr (), st'))))"

text \<open>The script: the credential checks of the module, then \<open>main()\<close>.\<close>

definition script :: "env \<Rightarrow> state \<Rightarrow> (abort + unit) \<times> state" where
  "script e st =
     (if \<not> present (MEDIUM_TOKEN e) then (Inl (Exit 1), st)
      else if \<not> present (AWS_ACCESS_KEY_ID e) \<or> \<not> present (AWS_SECRET_ACCESS_KEY e) then (Inl (Exit 1), st)
      else if \<not> present (AWS_S3_BUCKET e) then (Inl (Exit 1), st)
      else main e st)"

section \<open>A concrete world\<close>

text \<open>
  A world for the concrete runs below: a live run with all credentials set, no posts,
  no images, and services that answer nothing. Each example overrides what it needs.
\<close>

definition quiet_env :: env where
  "quiet_env = \<lparr>
     argv = [''node'', ''index.js''],
     AWS_ACCESS_KEY_ID = Some ''key'',
     AWS_SECRET_ACCESS_KEY = Some ''secret'',
     AWS_S3_BUCKET = Some ''bucket'',
     MEDIUM_TOKEN = Some ''token'',
     MEDIUM_PUB_ID = Some ''pub'',
     glob_sync = (\<lambda>pattern. []),
     url_hostname = (\<lambda>u. None),
     url_resolve = (\<lambda>base rel. base @ rel),
     safeLoadFront = (\<lambda>text. None),
     new_Date = (\<lambda>v. None),
     read_image = (\<lambda>img. None),
     s3_putObject = (\<lambda>n params. False),
     api_me = (\<lambda>n. None),
     api_publications = (\<lambda>n userId. None),
     api_posts = (\<lambda>n mp. None)\<rparr>"

definition fresh :: "(string \<Rightarrow> string option) \<Rightarrow> state" where
  "fresh fs = \<lparr>files = fs, trace = []\<rparr>"

definition jane_post :: post where
  "jane_post = \<lparr>title = JStr ''A title'', date = JUndefined, permalink = JUndefined,
     author = JStr ''Jane'', published = JUndefined,
     media = Some \<lparr>card = Some \<lparr>url = JStr ''/img/a.jpg''\<rparr>\<rparr>, content = ''Hello''\<rparr>"

definition ab_env :: env where
  "ab_env = quiet_env\<lparr>glob_sync :=
     (\<lambda>pattern. if pattern = ''posts/blog-2018/*.*'' then [''posts/a.md'', ''posts/b.md''] else [])\<rparr>"

definition six_env :: env where
  "six_env = quiet_env\<lparr>glob_sync :=
     (\<lambda>pattern. [''posts/1.md'', ''posts/2.md'', ''posts/3.md'', ''posts/4.md'', ''posts/5.md'',
        ''posts/6.md''])\<rparr>"

definition hosts_env :: env where
  "hosts_env = quiet_env\<lparr>url_hostname :=
     (\<lambda>u. if u = ''https://example.com/x.png'' then Some ''example.com''
          else if u = ''https://developmentseed.org/a.png'' then Some ''developmentseed.org''
          else None)\<rparr>"

definition mixed :: string where
  "mixed = ''<img src='' @ [DQ] @ ''a.png'' @ [DQ] @ ''> ![](b.png)''"

definition dry_env :: env where
  "dry_env = quiet_env\<lparr>argv := [''node'', ''index.js'', ''--dryrun'']\<rparr>"

definition twice :: string where
  "twice = ''![](a.png) ![](a.png)''"

section \<open>Reading a trace\<close>

fun is_S3Put :: "event \<Rightarrow> bool" where
  "is_S3Put (S3Put params ok) = True"
| "is_S3Put ev = False"

text \<open>A request sent over the network, to S3 or to Medium.\<close>

fun is_network :: "event \<Rightarrow> bool" where
  "is_network (S3Put params ok) = True"
| "is_network (MediumMe res) = True"
| "is_network (MediumPublications userId res) = True"
| "is_network (MediumPost mp res) = True"
| "is_network ev = False"

text \<open>A response of the Medium API that contains an errors array.\<close>

definition errors_in :: "'a response option \<Rightarrow> bool" where
  "errors_in res = (case res of None \<Rightarrow> False | Some r \<Rightarrow> errors r \<noteq> None)"

fun has_errors :: "event \<Rightarrow> bool" where
  "has_errors (MediumMe res) = errors_in res"
| "has_errors (MediumPublications userId res) = errors_in res"
| "has_errors (MediumPost mp res) = errors_in res"
| "has_errors ev = False"

text \<open>The path a file-system event writes to.\<close>

fun written :: "event \<Rightarrow> string option" where
  "written (FsWrite path text) = Some path"
| "written (FsAppend path text) = Some path"
| "written (FsUnlink path) = Some path"
| "written ev = None"

text \<open>The post the loop is on after the events \<open>evs\<close>: the last one it started.\<close>

fun current_file :: "event list \<Rightarrow> string option" where
  "current_file [] = None"
| "current_file (ev # evs) =
     (case current_file evs of
        Some f \<Rightarrow> Some f
      | None \<Rightarrow> (case ev of Handling f \<Rightarrow> Some f | _ \<Rightarrow> None))"

text \<open>The file system after the writes among the events \<open>evs\<close>, in order.\<close>

fun replay :: "event list \<Rightarrow> (string \<Rightarrow> string option) \<Rightarrow> (string \<Rightarrow> string option)" where
  "replay [] fs = fs"
| "replay (FsWrite path text # evs) fs = replay evs (fs(path \<mapsto> text))"
| "replay (FsAppend path text # evs) fs = replay evs (append_to fs path text)"
| "replay (FsUnlink path # evs) fs = replay evs (fs(path := None))"
| "replay (ev # evs) fs = replay evs fs"

text \<open>
  Every append to the completion ledger \<open>fc\<close> in the trace \<open>t\<close> comes directly after an
  append to the redirect ledger \<open>fr\<close>, which comes directly after a return of
  \<open>uploadPost\<close> with a result, and it appends the post the loop is on.
\<close>

definition completions_ok :: "string \<Rightarrow> string \<Rightarrow> event list \<Rightarrow> bool" where
  "completions_ok fr fc t =
     (\<forall>i<length t. \<forall>line. t ! i = FsAppend fc line \<longrightarrow>
        2 \<le> i
        \<and> (\<exists>mp d rl. t ! (i - 2) = UploadPostReturned mp (Some d) \<and> t ! (i - 1) = FsAppend fr rl)
        \<and> (\<exists>f. line = f @ [LF] \<and> current_file (take i t) = Some f))"

text \<open>
  What holds of the events \<open>es\<close> of a loop over the posts \<open>fs\<close> that ended with \<open>r\<close>: the
  only writes are appends to the two ledgers, a dry run sends nothing over the network,
  only posts of \<open>fs\<close> are started, and a Medium response with errors is the last event
  and ends the process with code 1.
\<close>

definition run_ok :: "env \<Rightarrow> string \<Rightarrow> string \<Rightarrow> string list \<Rightarrow> abort + unit \<Rightarrow> event list \<Rightarrow> bool" where
  "run_ok e fr fc fs r es =
     ((\<forall>x\<in>set es. \<forall>p. written x = Some p \<longrightarrow> (\<exists>t. x = FsAppend p t) \<and> (p = fr \<or> p = fc))
      \<and> (dryrun e \<longrightarrow> (\<forall>x\<in>set es. \<not> is_network x))
      \<and> (\<forall>f. Handling f \<in> set es \<longrightarrow> f \<in> set fs)
      \<and> ((\<forall>x\<in>set es. \<not> has_errors x)
          \<or> (r = Inl (Exit 1) \<and> (\<exists>pre ev. es = pre @ [ev] \<and> (\<forall>x\<in>set pre. \<not> has_errors x))))
      \<and> (r = Inr () \<longrightarrow> (\<forall>x\<in>set es. \<not> has_errors x)))"

text \<open>
  A Medium response with errors, if the events \<open>es\<close> hold one, is the last of them, and
  the process ended with code 1.
\<close>

definition errors_last :: "abort + unit \<Rightarrow> event list \<Rightarrow> bool" where
  "errors_last out es =
     ((\<forall>x\<in>set es. \<not> has_errors x)
      \<or> (out = Inl (Exit 1) \<and> (\<exists>pre ev. es = pre @ [ev] \<and> (\<forall>x\<in>set pre. \<not> has_errors x))))"

text \<open>
  What holds of a run of \<open>main\<close> from \<open>st\<close> that ended with \<open>out\<close> in \<open>st'\<close>, \<open>es\<close> being
  its events: the file system is the one its writes leave, the writes go to the two
  ledger files of the run, a dry run sends nothing over the network, no post that was a
  line of the live ledger is started (unless a dry run was given a pattern), appends
  to the completion ledger follow a publication, and a dry run that reaches its end
  has deleted its two files.
\<close>

definition main_ok :: "env \<Rightarrow> state \<Rightarrow> abort + unit \<Rightarrow> state \<Rightarrow> event list \<Rightarrow> bool" where
  "main_ok e st out st' es =
     (trace st' = trace st @ es
      \<and> files st' = replay es (files st)
      \<and> errors_last out es
      \<and> (\<forall>x\<in>set es. \<forall>p. written x = Some p \<longrightarrow> p = fileRedirect e \<or> p = fileCompleted e)
      \<and> (dryrun e \<longrightarrow> (\<forall>x\<in>set es. \<not> is_network x))
      \<and> (\<not> (dryrun e \<and> present (arg e 3)) \<longrightarrow>
            (\<forall>f. Handling f \<in> set es \<longrightarrow> f \<notin> set (read_completed st ''upload-complete.csv'')))
      \<and> (completions_ok (fileRedirect e) (fileCompleted e) (trace st) \<longrightarrow>
            completions_ok (fileRedirect e) (fileCompleted e) (trace st'))
      \<and> (dryrun e \<and> out = Inr () \<longrightarrow>
            files st' (fileRedirect e) = None \<and> files st' (fileCompleted e) = None))"

section \<open>Concrete posts\<close>

definition hello_file :: string where
  "hello_file = ''posts/blog-2018/2018-01-05-hello.md''"

definition bye_file :: string where
  "bye_file = ''posts/blog-2018/2018-01-05-bye.md''"

definition old_file :: string where
  "old_file = ''posts/blog-2018/2018-01-05-old.md''"

definition third_file :: string where
  "third_file = ''posts/blog-2018/2018-01-05-third.md''"

definition hello_post :: post where
  "hello_post = \<lparr>title = JStr ''Hello World'', date = JUndefined, permalink = JUndefined,
     author = JUndefined, published = JUndefined, media = None, content = ''Hello''\<rparr>"

definition hello_date :: jsdate where
  "hello_date = \<lparr>getFullYear = 2018, getMonth = 0, getDate = 5,
     toISOString = ''2018-01-05T00:00:00.000Z''\<rparr>"

text \<open>
  A world with three posts. Medium accepts every post but the one titled \<open>Bye\<close>, which
  it answers with an errors array.
\<close>

definition posts_env :: env where
  "posts_env = quiet_env\<lparr>
     glob_sync := (\<lambda>pattern. if pattern = ''posts/blog-2018/*.*'' then [old_file, hello_file, bye_file, third_file]
                      else if pattern = hello_file then [hello_file] else []),
     safeLoadFront := (\<lambda>raw. if raw = ''hello'' then Some hello_post
                      else if raw = ''bye'' then Some (hello_post\<lparr>title := JStr ''Bye''\<rparr>)
                      else if raw = ''untitled'' then Some (hello_post\<lparr>title := JUndefined\<rparr>)
                      else None),
     new_Date := (\<lambda>v. if v = JStr ''2018-01-05'' then Some hello_date else None),
     api_posts := (\<lambda>n mp. if mp_title mp = JStr ''Bye''
                      then Some \<lparr>errors = Some [''Bad request''], data = None\<rparr>
                      else Some \<lparr>errors = None, data = Some \<lparr>data_url = Some ''https://medium.com/p/1''\<rparr>\<rparr>)\<rparr>"

definition posts_fs :: "string \<Rightarrow> string option" where
  "posts_fs = [old_file \<mapsto> ''hello'', hello_file \<mapsto> ''hello'', bye_file \<mapsto> ''bye'',
     third_file \<mapsto> ''hello'', ''upload-complete.csv'' \<mapsto> old_file @ [LF]]"

definition dry_posts_env :: env where
  "dry_posts_env = posts_env\<lparr>argv := [''node'', ''index.js'', ''--dryrun'']\<rparr>"

definition pattern_env :: env where
  "pattern_env = posts_env\<lparr>argv := [''node'', ''index.js'', ''--dryrun'', hello_file]\<rparr>"

definition done_fs :: "string \<Rightarrow> string option" where
  "done_fs = [hello_file \<mapsto> ''hello'', ''upload-complete.csv'' \<mapsto> hello_file @ [LF]]"

definition untitled_fs :: "string \<Rightarrow> string option" where
  "untitled_fs = [old_file \<mapsto> ''untitled'']"

section \<open>Patterns and what a replacement leaves behind\<close>

text \<open>
  Notions used to reason about the global replacements of the content transformers.
  A pattern is \<open>plain\<close> when its match at a position does not depend on whether that
  position is the start of the input and is never empty; \<open>anchor_free\<close> is the
  syntactic reason for the first. \<open>accepts r s\<close> says that \<open>r\<close> matches a prefix of \<open>s\<close>,
  and \<open>clean r s\<close> that \<open>r\<close> matches at no position of \<open>s\<close>.
\<close>

definition plain :: "re \<Rightarrow> bool" where
  "plain r = (\<forall>b s. match_at r b s = match_at r False s
                \<and> (\<forall>n c. match_at r False s = Some (n, c) \<longrightarrow> 0 < n \<and> n \<le> length s))"

fun anchor_free :: "re \<Rightarrow> bool" where
  "anchor_free Bol = False"
| "anchor_free (Seq r1 r2) = (anchor_free r1 \<and> anchor_free r2)"
| "anchor_free (Alt r1 r2) = (anchor_free r1 \<and> anchor_free r2)"
| "anchor_free (Grp g r) = anchor_free r"
| "anchor_free r = True"

definition accepts :: "re \<Rightarrow> string \<Rightarrow> bool" where
  "accepts r s = (ends r False s \<noteq> [])"

fun clean :: "re \<Rightarrow> string \<Rightarrow> bool" where
  "clean r [] = True"
| "clean r (x # xs) = (\<not> accepts r (x # xs) \<and> clean r xs)"

text \<open>The number of line feeds a text starts with.\<close>

definition lead :: "string \<Rightarrow> nat" where
  "lead s = length (takeWhile (\<lambda>c. c = LF) s)"

text \<open>
  The text the two code-block patterns are replaced with, the part of the opening
  pattern after the word \<open>highlight\<close>, and the texts that part matches a prefix of:
  a \<open>%}\<close> comes before the line ends.
\<close>

abbreviation fence :: string where "fence \<equiv> [BQ, BQ, BQ]"

definition tail_re :: re where
  "tail_re = Seq (Opt is_space) (Seq (Star dot) (Seq (Opt is_space) (Lit ''%}'')))"

fun closes :: "string \<Rightarrow> bool" where
  "closes [] = False"
| "closes (x # xs) = (take 2 (x # xs) = ''%}'' \<or> (dot x \<and> closes xs))"

text \<open>
  Two texts in which removing a match brings the two halves of another one together,
  and a body with one class annotation and one site URL placeholder.
\<close>

definition nested_class :: string where
  "nested_class = ''{: .a{: .b}b}''"

definition nested_siteurl :: string where
  "nested_siteurl = ''{{ site.base{{ site.baseurl }}url }}''"

definition legacy_body :: string where
  "legacy_body = ''Hi{: .dropcap} <a href='' @ [DQ] @ ''{{ site.baseurl }}/about'' @ [DQ] @ ''>''"

section \<open>Scanning for matches\<close>


lemma search_Some:
  "search r b s = Some (k, n, c) \<Longrightarrow>
     k \<le> length s \<and> match_at r (b \<and> k = 0) (drop k s) = Some (n, c)"
proof (induction s arbitrary: b k)
  case Nil
  then show ?case by (auto split: option.splits)
next
  case (Cons x xs)
  show ?case
  proof (cases "match_at r b (x # xs)")
    case (Some m)
    with Cons.prems show ?thesis by (cases m) auto
  next
    case None
    with Cons.prems obtain k' where k: "k = Suc k'" and s: "search r False xs = Some (k', n, c)"
      by auto
    from Cons.IH [OF s] show ?thesis using k by simp
  qed
qed

lemma exec_Some:
  assumes "exec r s li = (Some m, li')"
  shows "li \<le> index m" and "index m \<le> length s" and "li' = index m + mlen m"
    and "match_at r (index m = 0) (drop (index m) s) = Some (mlen m, groups m)"
proof -
  from assms obtain k n c where le: "li \<le> length s"
    and s: "search r (li = 0) (drop li s) = Some (k, n, c)"
    and m: "m = \<lparr>index = li + k, mlen = n, groups = c\<rparr>" and li': "li' = li + k + n"
    by (auto simp: exec_def split: if_splits option.splits)
  from search_Some [OF s] have k: "k \<le> length s - li"
    and ma: "match_at r (li = 0 \<and> k = 0) (drop k (drop li s)) = Some (n, c)" by auto
  show "li \<le> index m" using m by simp
  show "index m \<le> length s" using m k le by simp
  show "li' = index m + mlen m" using m li' by simp
  show "match_at r (index m = 0) (drop (index m) s) = Some (mlen m, groups m)"
  proof -
    have "(li = 0 \<and> k = 0) = (index m = 0)" using m by auto
    then show ?thesis using ma m by (simp add: add.commute)
  qed
qed

lemma matches_g_index_ge: "m \<in> set (matches_g r s li) \<Longrightarrow> li \<le> index m"
proof (induction r s li rule: matches_g.induct)
  case (1 r s li)
  show ?case
  proof (cases "exec r s li")
    case (Pair mo li')
    show ?thesis
    proof (cases mo)
      case None
      with Pair "1.prems" show ?thesis by (subst (asm) matches_g.simps) simp
    next
      case (Some m0)
      note ex = exec_Some [OF Pair [unfolded Some]]
      from "1.prems" Pair Some
      have "m = m0 \<or> m \<in> set (matches_g r s (if mlen m0 = 0 then li' + 1 else li'))"
        by (subst (asm) matches_g.simps) simp
      then show ?thesis
      proof
        assume "m = m0" then show ?thesis using ex(1) by simp
      next
        assume "m \<in> set (matches_g r s (if mlen m0 = 0 then li' + 1 else li'))"
        from "1.IH" [OF Pair [symmetric] Some this] show ?thesis
          using ex(1) ex(3) by (simp split: if_splits)
      qed
    qed
  qed
qed

lemma matches_g_sorted: "sorted_wrt (<) (map index (matches_g r s li))"
proof (induction r s li rule: matches_g.induct)
  case (1 r s li)
  show ?case
  proof (cases "exec r s li")
    case (Pair mo li')
    show ?thesis
    proof (cases mo)
      case None
      with Pair show ?thesis by (subst matches_g.simps) simp
    next
      case (Some m0)
      note ex = exec_Some [OF Pair [unfolded Some]]
      let ?li = "if mlen m0 = 0 then li' + 1 else li'"
      have "index m0 < ?li" using ex(3) by simp
      then have "\<forall>m\<in>set (matches_g r s ?li). index m0 < index m"
        using matches_g_index_ge [of _ r s ?li] by fastforce
      moreover have "sorted_wrt (<) (map index (matches_g r s ?li))"
        using "1.IH" [OF Pair [symmetric] Some] .
      ultimately show ?thesis using Pair Some by (subst matches_g.simps) simp
    qed
  qed
qed

lemma matches_g_is_match:
  "m \<in> set (matches_g r s li) \<Longrightarrow>
     match_at r (index m = 0) (drop (index m) s) = Some (mlen m, groups m)"
proof (induction r s li rule: matches_g.induct)
  case (1 r s li)
  show ?case
  proof (cases "exec r s li")
    case (Pair mo li')
    show ?thesis
    proof (cases mo)
      case None
      with Pair "1.prems" show ?thesis by (subst (asm) matches_g.simps) simp
    next
      case (Some m0)
      note ex = exec_Some [OF Pair [unfolded Some]]
      from "1.prems" Pair Some
      have "m = m0 \<or> m \<in> set (matches_g r s (if mlen m0 = 0 then li' + 1 else li'))"
        by (subst (asm) matches_g.simps) simp
      then show ?thesis
        using ex(4) "1.IH" [OF Pair [symmetric] Some] by blast
    qed
  qed
qed

lemma getMatches_loop_eq:
  "getMatches_loop r s li acc = (acc @ map pick (matches_g r s li), 0)"
proof (induction r s li acc rule: getMatches_loop.induct)
  case (1 r s li acc)
  show ?case
  proof (cases "exec r s li")
    case (Pair mo li')
    show ?thesis
    proof (cases mo)
      case None
      with Pair have "li' = 0" by (auto simp: exec_def split: if_splits option.splits)
      with Pair None show ?thesis
        by (subst getMatches_loop.simps, subst matches_g.simps) simp
    next
      case (Some m0)
      note ex = exec_Some [OF Pair [unfolded Some]]
      have eq: "(if index m0 = li' then li' + 1 else li') = (if mlen m0 = 0 then li' + 1 else li')"
        using ex(3) by simp
      show ?thesis
        using "1.IH" [OF Pair [symmetric] Some] Pair Some eq
        by (subst getMatches_loop.simps, subst matches_g.simps) simp
    qed
  qed
qed

lemma getMatches_eq: "getMatches s r = map pick (matches_g r s 0)"
  by (simp add: getMatches_def getMatches_loop_eq)

text \<open>
  C6, as amended. For every body text, \<open>extractImageUrls\<close> returns the URL of every match
  of the Markdown pattern, in the order of the matches (their positions strictly
  increase), followed by the URL of every match of the HTML pattern, in the order of
  the matches, duplicates included; each one is a match of its pattern at its position.
  The two syntaxes are not interleaved.
\<close>

theorem extractImageUrls_markdown_then_html:
  "extractImageUrls c = map pick (matches_g mdImgRegex c 0) @ map pick (matches_g htmlImgRegex c 0)
   \<and> (\<forall>r \<in> {mdImgRegex, htmlImgRegex}.
        sorted_wrt (<) (map index (matches_g r c 0))
        \<and> (\<forall>m \<in> set (matches_g r c 0).
              match_at r (index m = 0) (drop (index m) c) = Some (mlen m, groups m)))"
  using matches_g_sorted matches_g_is_match
  by (simp add: extractImageUrls_def getMatches_eq)

lemma mixed_md: "matches_g mdImgRegex mixed 0 = [\<lparr>index = 18, mlen = 10, groups = [(1, ''b.png'')]\<rparr>]"
  by code_simp
lemma mixed_html: "matches_g htmlImgRegex mixed 0 = [\<lparr>index = 0, mlen = 16, groups = [(1, ''a.png'')]\<rparr>]"
  by code_simp

text \<open>
  C6, witness: a body with an HTML image at position 0 and a Markdown image at
  position 18.
\<close>

theorem extractImageUrls_markdown_then_html_witness:
  "extractImageUrls mixed = [Some ''b.png'', Some ''a.png'']
   \<and> map index (matches_g mdImgRegex mixed 0) = [18]
   \<and> map index (matches_g htmlImgRegex mixed 0) = [0]"
  using extractImageUrls_markdown_then_html [of mixed]
  by (simp add: mixed_md mixed_html pick_def grp_def)

text \<open>
  C6, counterexample: in \<open>mixed\<close> the HTML image \<open>a.png\<close> appears before the Markdown image
  \<open>b.png\<close>, and the result is not \<open>a.png\<close> followed by \<open>b.png\<close>.
\<close>

theorem extractImageUrls_not_by_position:
  "extractImageUrls mixed \<noteq> [Some ''a.png'', Some ''b.png'']"
  by code_simp


section \<open>The card image and the byline\<close>

lemma jane_siteurl:
  "handleSiteUrl (''![](/img/a.jpg)'' @ [LF, LF] @ ''Hello'') = ''![](/img/a.jpg)'' @ [LF, LF] @ ''Hello''"
  by code_simp

lemma jane_rest:
  "handleLineBreaks (handleCodeBlocks (handleLiquidClasses
     (''By: Jane'' @ [LF, LF] @ ''![](/img/a.jpg)'' @ [LF, LF] @ ''Hello'')))
   = ''By: Jane'' @ [LF, LF] @ ''![](/img/a.jpg)'' @ [LF, LF] @ ''Hello''"
  by code_simp

text \<open>
  C4, as amended. For a post whose front-matter declares the author \<open>Jane\<close> and the card
  image \<open>/img/a.jpg\<close> and whose body is \<open>Hello\<close>, the stages before the image-upload
  pass produce the byline first and the card image after it:
  \<open>By: Jane\n\n![](/img/a.jpg)\n\nHello\<close>. The card image is prepended first and the
  byline is prepended to the result.
\<close>

theorem transformContent_jane:
  assumes "author p = JStr ''Jane''"
    and "media p = Some \<lparr>card = Some \<lparr>url = JStr ''/img/a.jpg''\<rparr>\<rparr>"
    and "content p = ''Hello''"
  shows "transformContent p = ''By: Jane'' @ [LF, LF] @ ''![](/img/a.jpg)'' @ [LF, LF] @ ''Hello''"
proof -
  have "moveCardImageToContent p (content p) = ''![](/img/a.jpg)'' @ [LF, LF] @ ''Hello''"
    using assms by (simp add: moveCardImageToContent_def)
  moreover have "handlePostAuthors p (''![](/img/a.jpg)'' @ [LF, LF] @ ''Hello'')
      = ''By: Jane'' @ [LF, LF] @ ''![](/img/a.jpg)'' @ [LF, LF] @ ''Hello''"
    using assms by (simp add: handlePostAuthors_def)
  ultimately show ?thesis
    unfolding transformContent_def using jane_siteurl jane_rest by simp
qed

text \<open>C4, witness: the post \<open>jane_post\<close> meets the three hypotheses.\<close>

theorem transformContent_jane_witness:
  "author jane_post = JStr ''Jane''
   \<and> media jane_post = Some \<lparr>card = Some \<lparr>url = JStr ''/img/a.jpg''\<rparr>\<rparr>
   \<and> content jane_post = ''Hello''
   \<and> transformContent jane_post = ''By: Jane'' @ [LF, LF] @ ''![](/img/a.jpg)'' @ [LF, LF] @ ''Hello''"
proof -
  have a: "author jane_post = JStr ''Jane''" by (simp add: jane_post_def)
  have m: "media jane_post = Some \<lparr>card = Some \<lparr>url = JStr ''/img/a.jpg''\<rparr>\<rparr>"
    by (simp add: jane_post_def)
  have c: "content jane_post = ''Hello''" by (simp add: jane_post_def)
  show ?thesis using a m c transformContent_jane [OF a m c] by simp
qed

text \<open>
  C4, counterexample: for \<open>jane_post\<close> the content does not begin with the card image
  followed by the byline, \<open>![](/img/a.jpg)\n\nBy: Jane\n\nHello\<close>.
\<close>

theorem transformContent_jane_not_card_first:
  "take (length (''![](/img/a.jpg)'' @ [LF, LF] @ ''By: Jane'' @ [LF, LF] @ ''Hello''))
        (transformContent jane_post)
     \<noteq> ''![](/img/a.jpg)'' @ [LF, LF] @ ''By: Jane'' @ [LF, LF] @ ''Hello''"
  by code_simp

section \<open>An image reference with an empty URL\<close>

lemma extract_empty_md: "extractImageUrls ''![]()'' = [None]"
  by code_simp

text \<open>
  C10. For the body \<open>![]()\<close>, \<open>extractImageUrls\<close> returns one element, and it is
  undefined, not a string: the first group captured the empty string, which is falsy,
  and there is no second group. Given that result, \<open>filterUploadableImages\<close> throws the
  TypeError of \<open>url.parse\<close>, whatever the world.
\<close>

theorem extractImageUrls_undefined_element:
  "extractImageUrls ''![]()'' = [None]
   \<and> filterUploadableImages e (extractImageUrls ''![]()'') = Inl TypeError"
  by (simp add: extract_empty_md)

section \<open>Which images are uploaded\<close>

text \<open>
  The filter asks \<open>url.parse\<close> for the host name and nothing else: it returns, in
  order, the elements for which \<open>url.parse\<close> reports no host name (null or empty) or
  the host name \<open>developmentseed.org\<close>.
\<close>

lemma filterUploadableImages_filter:
  "filterUploadableImages e (map Some urls) =
     Inr (filter (\<lambda>u. \<not> present (url_hostname e u) \<or> url_hostname e u = Some ''developmentseed.org'') urls)"
  by (induction urls) simp_all

text \<open>
  C7, at the failing input. \<open>url.parse\<close> is called with one argument, so two leading
  slashes do not start a host: for the protocol-relative reference
  \<open>//cdn.example.com/x.png\<close> it reports the host name null and the whole text as the
  path. In every world in which \<open>url.parse\<close> answers so, \<open>filterUploadableImages\<close>
  keeps that reference, although it points to the external host \<open>cdn.example.com\<close>.
\<close>

theorem filterUploadableImages_keeps_protocol_relative:
  assumes "url_hostname e ''//cdn.example.com/x.png'' = None"
  shows "filterUploadableImages e [Some ''//cdn.example.com/x.png''] = Inr [''//cdn.example.com/x.png'']"
  using assms by (simp add: present_def)

text \<open>
  C7, witness: a world in which \<open>url.parse\<close> reports \<open>example.com\<close> for
  \<open>https://example.com/x.png\<close> and no host name for the protocol-relative reference.
\<close>

theorem filterUploadableImages_keeps_protocol_relative_witness:
  "url_hostname hosts_env ''//cdn.example.com/x.png'' = None
   \<and> filterUploadableImages hosts_env [Some ''//cdn.example.com/x.png''] = Inr [''//cdn.example.com/x.png'']"
  using filterUploadableImages_keeps_protocol_relative [of hosts_env]
  by (simp add: hosts_env_def)

section \<open>The pending files\<close>

text \<open>
  C1, as amended. Unless the run is a dry run given a pattern, \<open>getPostsFilesToProcess\<close>
  returns the first five of the candidates that are not a line of the ledger file, in
  the order of the candidates. In a dry run given a pattern it returns the files that
  match the pattern, whatever the ledger holds.
\<close>

theorem getPostsFilesToProcess_first_five:
  "(\<not> (dryrun e \<and> present (arg e 3)) \<longrightarrow>
      getPostsFilesToProcess e st ledger =
        take 5 (filter (\<lambda>f. f \<notin> set (read_completed st ledger))
                  (glob_sync e ''posts/blog-2018/*.*'')))
   \<and> (dryrun e \<and> present (arg e 3) \<longrightarrow>
      getPostsFilesToProcess e st ledger = glob_sync e (env_str (arg e 3)))"
  by (simp add: getPostsFilesToProcess_def)

text \<open>
  C1, witness: a live run whose ledger holds \<open>posts/a.md\<close> and whose candidates are
  \<open>posts/a.md\<close> and \<open>posts/b.md\<close> has exactly \<open>posts/b.md\<close> to process.
\<close>

theorem getPostsFilesToProcess_first_five_witness:
  "\<not> (dryrun ab_env \<and> present (arg ab_env 3))
   \<and> getPostsFilesToProcess ab_env (fresh [''upload-complete.csv'' \<mapsto> ''posts/a.md'' @ [LF]])
         ''upload-complete.csv''
       = [''posts/b.md'']"
proof -
  have d: "\<not> (dryrun ab_env \<and> present (arg ab_env 3))"
    by (simp add: ab_env_def quiet_env_def dryrun_def arg_def)
  have "read_completed (fresh [''upload-complete.csv'' \<mapsto> ''posts/a.md'' @ [LF]]) ''upload-complete.csv''
      = [''posts/a.md'', []]"
    by (simp add: read_completed_def fresh_def)
  moreover have "glob_sync ab_env ''posts/blog-2018/*.*'' = [''posts/a.md'', ''posts/b.md'']"
    by (simp add: ab_env_def quiet_env_def)
  ultimately show ?thesis
    using d getPostsFilesToProcess_first_five
      [of ab_env "fresh [''upload-complete.csv'' \<mapsto> ''posts/a.md'' @ [LF]]" "''upload-complete.csv''"]
    by simp
qed

text \<open>
  C1, counterexample: with six candidates and no ledger file, all six are pending, and
  the sixth is not returned.
\<close>

theorem getPostsFilesToProcess_drops_sixth:
  "getPostsFilesToProcess six_env (fresh Map.empty) ''upload-complete.csv''
     \<noteq> filter (\<lambda>f. f \<notin> set (read_completed (fresh Map.empty) ''upload-complete.csv''))
          [''posts/1.md'', ''posts/2.md'', ''posts/3.md'', ''posts/4.md'', ''posts/5.md'', ''posts/6.md'']"
  by (simp add: getPostsFilesToProcess_def six_env_def quiet_env_def dryrun_def arg_def
        read_completed_def fresh_def)

section \<open>The image-upload pass\<close>


lemma uploadImage_dryrun:
  "dryrun e \<Longrightarrow>
     uploadImage e st img =
       (Inr (''http://localhost/test/images/'' @ basename (replace_re devseedPrefixRegex [] img)), st)"
  by (simp add: uploadImage_def Let_def)

lemma dryrun_dry_env: "dryrun dry_env"
  by (simp add: dry_env_def quiet_env_def dryrun_def arg_def)

lemma twice_urls: "extractImageUrls twice = [Some ''a.png'', Some ''a.png'']"
  by code_simp

lemma a_png_key: "basename (replace_re devseedPrefixRegex [] ''a.png'') = ''a.png''"
  by code_simp

lemma twice_first:
  "replace_str ''a.png'' ''http://localhost/test/images/a.png'' twice
     = ''![](http://localhost/test/images/a.png) ![](a.png)''"
  by code_simp

lemma twice_second:
  "replace_str ''a.png'' ''http://localhost/test/images/a.png''
       ''![](http://localhost/test/images/a.png) ![](a.png)''
     = ''![](http://localhost/test/images/http://localhost/test/images/a.png) ![](a.png)''"
  by code_simp

text \<open>
  C5, at the failing input. In a dry run, the content \<open>![](a.png) ![](a.png)\<close> refers
  twice to \<open>a.png\<close>, and the reference is uploaded twice. The first replacement rewrites
  the first reference; the uploaded URL ends in \<open>a.png\<close>, so the second replacement
  finds the reference inside the URL just inserted and rewrites that: the first
  reference now holds a URL inside a URL, and the second one is left as it was.
\<close>

theorem handlePostContentImages_repeated_reference:
  "handlePostContentImages dry_env st twice =
     (Inr ''![](http://localhost/test/images/http://localhost/test/images/a.png) ![](a.png)'', st)"
proof -
  have "filterUploadableImages dry_env (extractImageUrls twice) = Inr [''a.png'', ''a.png'']"
    by (simp add: twice_urls dry_env_def quiet_env_def present_def)
  then show ?thesis
    by (simp add: handlePostContentImages_def uploadImage_dryrun [OF dryrun_dry_env] a_png_key
          twice_first twice_second)
qed

section \<open>Effects of the operations\<close>

lemma trace_emit [simp]: "trace (emit ev st) = trace st @ [ev]"
  and files_emit [simp]: "files (emit ev st) = files st"
  by (simp_all add: emit_def)

lemma appendFileSync_effect [simp]:
  "trace (appendFileSync path text st) = trace st @ [FsAppend path text]"
  "files (appendFileSync path text st) = append_to (files st) path text"
  by (simp_all add: appendFileSync_def)

lemma writeFileSync_effect [simp]:
  "trace (writeFileSync path text st) = trace st @ [FsWrite path text]"
  "files (writeFileSync path text st) = (files st)(path \<mapsto> text)"
  by (simp_all add: writeFileSync_def)

lemma unlinkSync_effect [simp]:
  "trace (unlinkSync path st) = trace st @ [FsUnlink path]"
  "files (unlinkSync path st) = (files st)(path := None)"
  by (simp_all add: unlinkSync_def)

lemma uploadImage_effect:
  assumes "uploadImage e st img = (r, st')"
  obtains es where "trace st' = trace st @ es" and "\<forall>x\<in>set es. is_S3Put x"
    and "files st' = files st" and "dryrun e \<Longrightarrow> es = []"
proof (cases "dryrun e")
  case True
  with assms have "st' = st" by (simp add: uploadImage_def Let_def)
  with True that [of "[]"] show ?thesis by simp
next
  case False
  show ?thesis
  proof (cases "read_image e (replace_re devseedPrefixRegex [] img)")
    case None
    with False assms have "st' = st" by (simp add: uploadImage_def Let_def)
    with False that [of "[]"] show ?thesis by simp
  next
    case (Some body)
    with False assms obtain params ok where "st' = emit (S3Put params ok) st"
      by (auto simp: uploadImage_def Let_def split: if_splits)
    with False that [of "[S3Put params ok]"] show ?thesis by simp
  qed
qed

lemma upload_each_effect:
  assumes "upload_each e st imgs c = (r, st')"
  obtains es where "trace st' = trace st @ es" and "\<forall>x\<in>set es. is_S3Put x"
    and "files st' = files st" and "dryrun e \<Longrightarrow> es = []"
proof -
  have "\<exists>es. trace st' = trace st @ es \<and> (\<forall>x\<in>set es. is_S3Put x)
          \<and> files st' = files st \<and> (dryrun e \<longrightarrow> es = [])"
    using assms
  proof (induction imgs arbitrary: st c)
    case Nil
    then show ?case by simp
  next
    case (Cons img imgs)
    obtain r1 st1 where u: "uploadImage e st img = (r1, st1)" by (cases "uploadImage e st img")
    from uploadImage_effect [OF u] obtain es1 where
      e1: "trace st1 = trace st @ es1" "\<forall>x\<in>set es1. is_S3Put x" "files st1 = files st"
        "dryrun e \<longrightarrow> es1 = []" by metis
    show ?case
    proof (cases r1)
      case (Inl a)
      with Cons.prems u have "st' = st1" by simp
      with e1 show ?thesis by auto
    next
      case (Inr newURL)
      with Cons.prems u have "upload_each e st1 imgs (replace_str img newURL c) = (r, st')" by simp
      from Cons.IH [OF this] obtain es2 where
        "trace st' = trace st1 @ es2" "\<forall>x\<in>set es2. is_S3Put x" "files st' = files st1"
        "dryrun e \<longrightarrow> es2 = []" by auto
      with e1 show ?thesis by (intro exI [of _ "es1 @ es2"]) auto
    qed
  qed
  then show ?thesis using that by auto
qed

lemma handlePostContentImages_effect:
  assumes "handlePostContentImages e st c = (r, st')"
  obtains es where "trace st' = trace st @ es" and "\<forall>x\<in>set es. is_S3Put x"
    and "files st' = files st" and "dryrun e \<Longrightarrow> es = []"
proof (cases "filterUploadableImages e (extractImageUrls c)")
  case (Inl x)
  with assms have "st' = st" by (simp add: handlePostContentImages_def)
  with that [of "[]"] show ?thesis by simp
next
  case (Inr imgs)
  with assms have "upload_each e st imgs c = (r, st')" by (simp add: handlePostContentImages_def)
  from upload_each_effect [OF this] that show ?thesis by metis
qed

lemma uploadPost_cases:
  assumes "uploadPost e st mp = (r, st')"
  obtains
    (dry_ok) d where "dryrun e" "r = Inr (Some d)"
      "trace st' = trace st @ [UploadPostReturned mp (Some d)]" "files st' = files st"
  | (dry_throw) "dryrun e" "r = Inl (Throw TypeError)" "st' = st"
  | (no_answer) "\<not> dryrun e" "r = Inl (Throw FetchError)"
      "trace st' = trace st @ [MediumPost mp None]" "files st' = files st"
  | (rejected) rr where "\<not> dryrun e" "errors rr \<noteq> None" "r = Inl (Exit 1)"
      "trace st' = trace st @ [MediumPost mp (Some rr)]" "files st' = files st"
  | (answered) rr where "\<not> dryrun e" "errors rr = None" "r = Inr (data rr)"
      "trace st' = trace st @ [MediumPost mp (Some rr), UploadPostReturned mp (data rr)]"
      "files st' = files st"
proof (cases "dryrun e")
  case True
  show ?thesis
  proof (cases "mp_title mp")
    case (JStr t)
    with True assms dry_ok show ?thesis
      by (auto simp: uploadPost_def uploadPost_body_def)
  qed (use True assms dry_throw in \<open>auto simp: uploadPost_def uploadPost_body_def\<close>)
next
  case False
  show ?thesis
  proof (cases "api_posts e (length (trace st)) mp")
    case None
    with False assms no_answer show ?thesis
      by (auto simp: uploadPost_def uploadPost_body_def Let_def)
  next
    case (Some rr)
    show ?thesis
    proof (cases "errors rr")
      case None
      with False Some assms answered [of rr] show ?thesis
        by (auto simp: uploadPost_def uploadPost_body_def Let_def handleMediumErrors_def)
    next
      case (Some es)
      with False \<open>api_posts e (length (trace st)) mp = Some rr\<close> assms rejected [of rr] show ?thesis
        by (auto simp: uploadPost_def uploadPost_body_def Let_def handleMediumErrors_def)
    qed
  qed
qed

lemma uploadImage_throws: "uploadImage e st img = (Inl a, st') \<Longrightarrow> \<exists>x. a = Throw x"
  by (auto simp: uploadImage_def Let_def split: if_splits option.splits)

lemma upload_each_throws: "upload_each e st imgs c = (Inl a, st') \<Longrightarrow> \<exists>x. a = Throw x"
proof (induction imgs arbitrary: st c)
  case Nil
  then show ?case by simp
next
  case (Cons img imgs)
  obtain r1 st1 where u: "uploadImage e st img = (r1, st1)" by (cases "uploadImage e st img")
  show ?case
  proof (cases r1)
    case (Inl b)
    with Cons.prems u have "a = b" by simp
    with Inl u uploadImage_throws show ?thesis by blast
  next
    case (Inr newURL)
    with Cons.prems u Cons.IH show ?thesis by simp
  qed
qed

lemma process_file_shape:
  assumes "process_file e fr fc st file = (r, st')"
  obtains
    (stopped) imgs where "trace st' = trace st @ Handling file # imgs"
      "\<forall>x\<in>set imgs. is_S3Put x" "dryrun e \<Longrightarrow> imgs = []" "files st' = files st"
      "r = Inr () \<or> (\<exists>x. r = Inl (Throw x))"
  | (refused) imgs mp res where "\<not> dryrun e"
      "trace st' = trace st @ Handling file # imgs @ [MediumPost mp res]"
      "\<forall>x\<in>set imgs. is_S3Put x" "files st' = files st"
      "(res = None \<and> r = Inl (Throw FetchError)) \<or> (errors_in res \<and> r = Inl (Exit 1))"
  | (no_data) imgs mp rr where "\<not> dryrun e" "errors rr = None"
      "trace st' = trace st @ Handling file # imgs @ [MediumPost mp (Some rr), UploadPostReturned mp None]"
      "\<forall>x\<in>set imgs. is_S3Put x" "files st' = files st" "r = Inl (Throw TypeError)"
  | (migrated) imgs pub mp d line where
      "trace st' = trace st @ Handling file # imgs @ pub
          @ [UploadPostReturned mp (Some d), FsAppend fr line, FsAppend fc (file @ [LF])]"
      "\<forall>x\<in>set imgs. is_S3Put x" "dryrun e \<Longrightarrow> imgs = [] \<and> pub = []"
      "pub = [] \<or> (\<exists>rr. pub = [MediumPost mp (Some rr)] \<and> errors rr = None)"
      "files st' = append_to (append_to (files st) fr line) fc (file @ [LF])" "r = Inr ()"
proof -
  define st1 where "st1 = emit (Handling file) st"
  have t1: "trace st1 = trace st @ [Handling file]" and f1: "files st1 = files st"
    by (simp_all add: st1_def)
  note pf = assms [unfolded process_file_def Let_def, folded st1_def]
  show ?thesis
  proof (cases "files st1 file")
    case None
    with pf have "r = Inl (Throw FsError)" "st' = st1" by simp_all
    with t1 f1 stopped [of "[]"] show ?thesis by simp
  next
    case (Some raw)
    note rd = this
    show ?thesis
    proof (cases "safeLoadFront e raw")
      case None
      with pf rd have "r = Inl (Throw YamlError)" "st' = st1" by simp_all
      with t1 f1 stopped [of "[]"] show ?thesis by simp
    next
      case (Some p)
      note p = this
      show ?thesis
      proof (cases "published p \<noteq> JUndefined \<and> \<not> truthy (published p)")
        case True
        with pf rd p have "r = Inr ()" "st' = st1" by simp_all
        with t1 f1 stopped [of "[]"] show ?thesis by simp
      next
        case False
        note pub = this
        obtain r2 st2 where h: "handlePostContentImages e st1 (transformContent p) = (r2, st2)"
          by (cases "handlePostContentImages e st1 (transformContent p)")
        from handlePostContentImages_effect [OF h] obtain imgs where
          t2: "trace st2 = trace st1 @ imgs" and i2: "\<forall>x\<in>set imgs. is_S3Put x"
          and f2: "files st2 = files st1" and d2: "dryrun e \<longrightarrow> imgs = []" by metis
        have early: ?thesis if "st' = st2" "r = Inr () \<or> (\<exists>x. r = Inl (Throw x))"
          using that t1 t2 f1 f2 i2 d2 stopped [of imgs] by simp
        show ?thesis
        proof (cases r2)
          case (Inl a)
          with pf rd p pub h have st': "st' = st2" and r: "r = Inl a" by simp_all
          show ?thesis
          proof (cases "filterUploadableImages e (extractImageUrls (transformContent p))")
            case (Inl x)
            with h \<open>r2 = Inl a\<close> have "a = Throw x" by (simp add: handlePostContentImages_def)
            with early st' r show ?thesis by simp
          next
            case (Inr list)
            have "\<exists>x. a = Throw x"
              using h \<open>r2 = Inl a\<close> Inr upload_each_throws
              by (simp add: handlePostContentImages_def)
            with early st' r show ?thesis by auto
          qed
        next
          case (Inr c)
          note c = this
          show ?thesis
          proof (cases "getOriginalURL e file p")
            case (Inl x)
            with pf rd p pub h c have "st' = st2" "r = Inl (Throw x)" by simp_all
            with early show ?thesis by simp
          next
            case (Inr originalUrl)
            note ou = this
            show ?thesis
            proof (cases "getPostDate e file p")
              case (Inl x)
              with pf rd p pub h c ou have "st' = st2" "r = Inl (Throw x)" by simp_all
              with early show ?thesis by simp
            next
              case (Inr dopt)
              show ?thesis
              proof (cases dopt)
                case None
                with pf rd p pub h c ou Inr have "st' = st2" "r = Inl (Throw RangeError)" by simp_all
                with early show ?thesis by simp
              next
                case (Some d)
                define mp where "mp = \<lparr>mp_title = title p, contentFormat = ''markdown'',
                     publishedAt = toISOString d, mp_content = c\<rparr>"
                obtain r3 st3 where u: "uploadPost e st2 mp = (r3, st3)"
                  by (cases "uploadPost e st2 mp")
                have pf': "(case (r3, st3) of
                       (Inl a, s) \<Rightarrow> (Inl a, s)
                     | (Inr None, s) \<Rightarrow> (Inl (Throw TypeError), s)
                     | (Inr (Some uploadResult), s) \<Rightarrow>
                         (Inr (), appendFileSync fc (file @ [LF])
                            (appendFileSync fr (redirect_line originalUrl (data_url uploadResult)) s)))
                     = (r, st')"
                  using pf rd p pub h c ou Inr Some u by (simp add: mp_def)
                from u show ?thesis
                proof (cases rule: uploadPost_cases)
                  case (dry_ok dd)
                  with pf' have "r = Inr ()"
                    and "st' = appendFileSync fc (file @ [LF])
                          (appendFileSync fr (redirect_line originalUrl (data_url dd)) st3)"
                    by simp_all
                  with dry_ok t1 t2 f1 f2 i2 d2
                    migrated [of imgs "[]" mp dd "redirect_line originalUrl (data_url dd)"]
                  show ?thesis by simp
                next
                  case dry_throw
                  with pf' have "st' = st2" "r = Inl (Throw TypeError)" by simp_all
                  with early show ?thesis by simp
                next
                  case no_answer
                  with pf' have "st' = st3" "r = Inl (Throw FetchError)" by simp_all
                  with no_answer t1 t2 f1 f2 i2 refused [of imgs mp None] show ?thesis by simp
                next
                  case (rejected rr)
                  with pf' have "st' = st3" "r = Inl (Exit 1)" by simp_all
                  with rejected t1 t2 f1 f2 i2 refused [of imgs mp "Some rr"] show ?thesis
                    by (simp add: errors_in_def)
                next
                  case (answered rr)
                  show ?thesis
                  proof (cases "data rr")
                    case None
                    with answered pf' have "st' = st3" "r = Inl (Throw TypeError)" by simp_all
                    with answered None t1 t2 f1 f2 i2 no_data [of rr imgs mp] show ?thesis by simp
                  next
                    case (Some dd)
                    with answered pf' have "r = Inr ()"
                      and "st' = appendFileSync fc (file @ [LF])
                            (appendFileSync fr (redirect_line originalUrl (data_url dd)) st3)"
                      by simp_all
                    with answered Some t1 t2 f1 f2 i2
                      migrated [of imgs "[MediumPost mp (Some rr)]" mp dd
                                   "redirect_line originalUrl (data_url dd)"]
                    show ?thesis by simp
                  qed
                qed
              qed
            qed
          qed
        qed
      qed
    qed
  qed
qed

section \<open>Invariants of the loop\<close>

lemma current_file_append:
  "current_file (xs @ ys) = (case current_file ys of Some f \<Rightarrow> Some f | None \<Rightarrow> current_file xs)"
  by (induction xs) (auto split: option.splits event.splits)

lemma current_file_none: "\<forall>x\<in>set es. \<forall>f. x \<noteq> Handling f \<Longrightarrow> current_file es = None"
  by (induction es) (auto split: event.splits)

lemma completions_ok_snoc:
  assumes "completions_ok fr fc t" and "\<forall>line. x \<noteq> FsAppend fc line"
  shows "completions_ok fr fc (t @ [x])"
  unfolding completions_ok_def
proof (intro allI impI)
  fix i line
  assume i: "i < length (t @ [x])" and a: "(t @ [x]) ! i = FsAppend fc line"
  have "i \<noteq> length t" using a assms(2) by auto
  with i have lt: "i < length t" by simp
  with a have "t ! i = FsAppend fc line" by (simp add: nth_append)
  with assms(1) lt have "2 \<le> i"
    and "\<exists>mp d rl. t ! (i - 2) = UploadPostReturned mp (Some d) \<and> t ! (i - 1) = FsAppend fr rl"
    and "\<exists>f. line = f @ [LF] \<and> current_file (take i t) = Some f"
    unfolding completions_ok_def by blast+
  moreover have "(t @ [x]) ! (i - 2) = t ! (i - 2)" "(t @ [x]) ! (i - 1) = t ! (i - 1)"
    "take i (t @ [x]) = take i t"
    using lt by (auto simp: nth_append)
  ultimately show "2 \<le> i
        \<and> (\<exists>mp d rl. (t @ [x]) ! (i - 2) = UploadPostReturned mp (Some d) \<and> (t @ [x]) ! (i - 1) = FsAppend fr rl)
        \<and> (\<exists>f. line = f @ [LF] \<and> current_file (take i (t @ [x])) = Some f)"
    by simp
qed

lemma completions_ok_append:
  "completions_ok fr fc t \<Longrightarrow> \<forall>x\<in>set es. \<forall>line. x \<noteq> FsAppend fc line \<Longrightarrow> completions_ok fr fc (t @ es)"
proof (induction es rule: rev_induct)
  case Nil
  then show ?case by simp
next
  case (snoc x xs)
  then have "completions_ok fr fc (t @ xs)" by simp
  from completions_ok_snoc [OF this, of x] snoc.prems(2) show ?case by simp
qed

lemma completions_ok_snoc_completed:
  assumes "completions_ok fr fc u" and "2 \<le> length u"
    and "u ! (length u - 2) = UploadPostReturned mp (Some d)"
    and "u ! (length u - 1) = FsAppend fr rl" and "current_file u = Some f"
  shows "completions_ok fr fc (u @ [FsAppend fc (f @ [LF])])"
  unfolding completions_ok_def
proof (intro allI impI)
  fix i line
  assume i: "i < length (u @ [FsAppend fc (f @ [LF])])"
    and a: "(u @ [FsAppend fc (f @ [LF])]) ! i = FsAppend fc line"
  show "2 \<le> i
      \<and> (\<exists>mp d rl. (u @ [FsAppend fc (f @ [LF])]) ! (i - 2) = UploadPostReturned mp (Some d)
            \<and> (u @ [FsAppend fc (f @ [LF])]) ! (i - 1) = FsAppend fr rl)
      \<and> (\<exists>f'. line = f' @ [LF] \<and> current_file (take i (u @ [FsAppend fc (f @ [LF])])) = Some f')"
  proof (cases "i < length u")
    case True
    with a have "u ! i = FsAppend fc line" by (simp add: nth_append)
    with assms(1) True have "2 \<le> i"
      and "\<exists>mp d rl. u ! (i - 2) = UploadPostReturned mp (Some d) \<and> u ! (i - 1) = FsAppend fr rl"
      and "\<exists>f. line = f @ [LF] \<and> current_file (take i u) = Some f"
      unfolding completions_ok_def by blast+
    moreover have "(u @ [FsAppend fc (f @ [LF])]) ! (i - 2) = u ! (i - 2)"
      "(u @ [FsAppend fc (f @ [LF])]) ! (i - 1) = u ! (i - 1)"
      "take i (u @ [FsAppend fc (f @ [LF])]) = take i u"
      using True by (auto simp: nth_append)
    ultimately show ?thesis by simp
  next
    case False
    with i have ieq: "i = length u" by simp
    then have "line = f @ [LF]" using a by simp
    moreover have "take i (u @ [FsAppend fc (f @ [LF])]) = u" using ieq by simp
    moreover have "(u @ [FsAppend fc (f @ [LF])]) ! (i - 2) = u ! (length u - 2)"
      "(u @ [FsAppend fc (f @ [LF])]) ! (i - 1) = u ! (length u - 1)"
      using ieq assms(2) by (auto simp: nth_append)
    ultimately show ?thesis using assms(2-5) ieq by simp
  qed
qed

lemma completions_ok_publish:
  assumes "completions_ok fr fc t" and "fr \<noteq> fc" and "current_file t = Some f"
  shows "completions_ok fr fc (t @ [UploadPostReturned mp (Some d), FsAppend fr rl, FsAppend fc (f @ [LF])])"
proof -
  define u where "u = t @ [UploadPostReturned mp (Some d), FsAppend fr rl]"
  have "completions_ok fr fc u"
    using completions_ok_append [OF assms(1), of "[UploadPostReturned mp (Some d), FsAppend fr rl]"] assms(2)
    by (simp add: u_def)
  moreover have "current_file u = Some f" using assms(3) by (simp add: u_def current_file_append)
  moreover have "2 \<le> length u" "u ! (length u - 2) = UploadPostReturned mp (Some d)"
    "u ! (length u - 1) = FsAppend fr rl"
    by (simp_all add: u_def nth_append)
  ultimately have "completions_ok fr fc (u @ [FsAppend fc (f @ [LF])])"
    using completions_ok_snoc_completed [of fr fc u mp d rl f] by blast
  then show ?thesis by (simp add: u_def)
qed

lemma process_file_completions:
  assumes "process_file e fr fc st file = (r, st')" and "fr \<noteq> fc"
    and "completions_ok fr fc (trace st)"
  shows "completions_ok fr fc (trace st')"
  using assms(1)
proof (cases rule: process_file_shape)
  case (stopped imgs)
  then have "\<forall>x\<in>set (Handling file # imgs). \<forall>line. x \<noteq> FsAppend fc line" by auto
  from completions_ok_append [OF assms(3) this] stopped show ?thesis by simp
next
  case (refused imgs mp res)
  then have "\<forall>x\<in>set (Handling file # imgs @ [MediumPost mp res]). \<forall>line. x \<noteq> FsAppend fc line" by auto
  from completions_ok_append [OF assms(3) this] refused show ?thesis by simp
next
  case (no_data imgs mp rr)
  then have "\<forall>x\<in>set (Handling file # imgs @ [MediumPost mp (Some rr), UploadPostReturned mp None]).
      \<forall>line. x \<noteq> FsAppend fc line" by auto
  from completions_ok_append [OF assms(3) this] no_data show ?thesis by simp
next
  case (migrated imgs pub mp d line)
  let ?t = "trace st @ Handling file # imgs @ pub"
  have np: "\<forall>x\<in>set (imgs @ pub). (\<forall>l. x \<noteq> FsAppend fc l) \<and> (\<forall>f. x \<noteq> Handling f)"
    using migrated(2,4) by auto
  then have "\<forall>x\<in>set (Handling file # imgs @ pub). \<forall>l. x \<noteq> FsAppend fc l" by auto
  from completions_ok_append [OF assms(3) this] have ok: "completions_ok fr fc ?t" by simp
  have "current_file (imgs @ pub) = None" using np by (intro current_file_none) blast
  then have "current_file ?t = Some file"
    using current_file_append [of "trace st" "Handling file # imgs @ pub"] by simp
  from completions_ok_publish [OF ok assms(2) this] migrated(1) show ?thesis by simp
qed

lemma main_loop_completions:
  assumes "main_loop e fr fc st fs = (r, st')" and "fr \<noteq> fc"
    and "completions_ok fr fc (trace st)"
  shows "completions_ok fr fc (trace st')"
  using assms
proof (induction fs arbitrary: st)
  case Nil
  then show ?case by simp
next
  case (Cons fl rest)
  obtain r1 st1 where p: "process_file e fr fc st fl = (r1, st1)"
    by (cases "process_file e fr fc st fl")
  from process_file_completions [OF p Cons.prems(2,3)] have ok: "completions_ok fr fc (trace st1)" .
  show ?case
  proof (cases r1)
    case (Inl a)
    with Cons.prems(1) p ok show ?thesis by simp
  next
    case (Inr u)
    with Cons.prems(1) p have "main_loop e fr fc st1 rest = (r, st')" by simp
    from Cons.IH [OF this Cons.prems(2) ok] show ?thesis .
  qed
qed

lemma replay_append: "replay (xs @ ys) fs = replay ys (replay xs fs)"
proof (induction xs arbitrary: fs)
  case Nil
  then show ?case by simp
next
  case (Cons x xs)
  then show ?case by (cases x) (simp_all add: fun_upd_def)
qed

lemma replay_quiet: "\<forall>x\<in>set es. written x = None \<Longrightarrow> replay es fs = fs"
proof (induction es arbitrary: fs)
  case Nil
  then show ?case by simp
next
  case (Cons x xs)
  then show ?case by (cases x) (simp_all add: fun_upd_def)
qed

lemma run_okI:
  assumes "\<forall>x\<in>set es. \<forall>p. written x = Some p \<longrightarrow> (\<exists>t. x = FsAppend p t) \<and> (p = fr \<or> p = fc)"
    and "dryrun e \<longrightarrow> (\<forall>x\<in>set es. \<not> is_network x)"
    and "\<forall>f. Handling f \<in> set es \<longrightarrow> f \<in> set fs"
    and "(\<forall>x\<in>set es. \<not> has_errors x)
          \<or> (r = Inl (Exit 1) \<and> (\<exists>pre ev. es = pre @ [ev] \<and> (\<forall>x\<in>set pre. \<not> has_errors x)))"
    and "r = Inr () \<longrightarrow> (\<forall>x\<in>set es. \<not> has_errors x)"
  shows "run_ok e fr fc fs r es"
  unfolding run_ok_def using assms by (intro conjI)

lemma S3Put_quiet:
  assumes "is_S3Put x"
  shows "written x = None" and "\<not> has_errors x" and "\<forall>f. x \<noteq> Handling f" and "is_network x"
  using assms by (cases x; simp)+

lemma run_ok_step:
  assumes "run_ok e fr fc [f] (Inr ()) es1" and "run_ok e fr fc rest r es2"
  shows "run_ok e fr fc (f # rest) r (es1 @ es2)"
proof -
  have ne: "\<forall>x\<in>set es1. \<not> has_errors x" using assms(1) by (simp add: run_ok_def)
  have "(\<forall>x\<in>set (es1 @ es2). \<not> has_errors x)
          \<or> (r = Inl (Exit 1) \<and> (\<exists>pre ev. es1 @ es2 = pre @ [ev] \<and> (\<forall>x\<in>set pre. \<not> has_errors x)))"
  proof (cases "\<forall>x\<in>set es2. \<not> has_errors x")
    case True
    with ne show ?thesis by auto
  next
    case False
    with assms(2) obtain pre ev where "r = Inl (Exit 1)" "es2 = pre @ [ev]" "\<forall>x\<in>set pre. \<not> has_errors x"
      unfolding run_ok_def by blast
    with ne have "r = Inl (Exit 1) \<and> es1 @ es2 = (es1 @ pre) @ [ev] \<and> (\<forall>x\<in>set (es1 @ pre). \<not> has_errors x)"
      by auto
    then show ?thesis by blast
  qed
  moreover have "r = Inr () \<longrightarrow> (\<forall>x\<in>set (es1 @ es2). \<not> has_errors x)"
    using ne assms(2) by (auto simp: run_ok_def)
  moreover have "\<forall>x\<in>set (es1 @ es2). \<forall>p. written x = Some p \<longrightarrow> (\<exists>t. x = FsAppend p t) \<and> (p = fr \<or> p = fc)"
  proof -
    have "\<forall>x\<in>set es1. \<forall>p. written x = Some p \<longrightarrow> (\<exists>t. x = FsAppend p t) \<and> (p = fr \<or> p = fc)"
      "\<forall>x\<in>set es2. \<forall>p. written x = Some p \<longrightarrow> (\<exists>t. x = FsAppend p t) \<and> (p = fr \<or> p = fc)"
      using assms by (simp_all add: run_ok_def)
    then show ?thesis by (simp add: ball_Un)
  qed
  moreover have "dryrun e \<longrightarrow> (\<forall>x\<in>set (es1 @ es2). \<not> is_network x)"
  proof -
    have "dryrun e \<longrightarrow> (\<forall>x\<in>set es1. \<not> is_network x)" "dryrun e \<longrightarrow> (\<forall>x\<in>set es2. \<not> is_network x)"
      using assms by (simp_all add: run_ok_def)
    then show ?thesis by (simp add: ball_Un)
  qed
  moreover have "\<forall>g. Handling g \<in> set (es1 @ es2) \<longrightarrow> g \<in> set (f # rest)"
  proof -
    have "\<forall>g. Handling g \<in> set es1 \<longrightarrow> g \<in> set [f]" "\<forall>g. Handling g \<in> set es2 \<longrightarrow> g \<in> set rest"
      using assms by (simp_all add: run_ok_def)
    then show ?thesis by auto
  qed
  ultimately show ?thesis by (intro run_okI)
qed

lemma run_ok_quiet:
  assumes "\<forall>x\<in>set es. written x = None \<and> \<not> has_errors x"
    and "\<forall>g. Handling g \<in> set es \<longrightarrow> g \<in> set fs"
    and "dryrun e \<longrightarrow> (\<forall>x\<in>set es. \<not> is_network x)"
  shows "run_ok e fr fc fs r es"
proof (rule run_okI)
  show "\<forall>x\<in>set es. \<forall>p. written x = Some p \<longrightarrow> (\<exists>t. x = FsAppend p t) \<and> (p = fr \<or> p = fc)"
    using assms(1) by simp
  show "dryrun e \<longrightarrow> (\<forall>x\<in>set es. \<not> is_network x)" by (rule assms(3))
  show "\<forall>f. Handling f \<in> set es \<longrightarrow> f \<in> set fs" by (rule assms(2))
  show "(\<forall>x\<in>set es. \<not> has_errors x)
          \<or> (r = Inl (Exit 1) \<and> (\<exists>pre ev. es = pre @ [ev] \<and> (\<forall>x\<in>set pre. \<not> has_errors x)))"
    using assms(1) by simp
  show "r = Inr () \<longrightarrow> (\<forall>x\<in>set es. \<not> has_errors x)" using assms(1) by simp
qed

lemma process_file_run:
  assumes "process_file e fr fc st f = (r, st')"
  shows "\<exists>es. trace st' = trace st @ es \<and> files st' = replay es (files st) \<and> run_ok e fr fc [f] r es"
  using assms
proof (cases rule: process_file_shape)
  case (stopped imgs)
  define es where "es = Handling f # imgs"
  have q: "\<forall>x\<in>set es. written x = None \<and> \<not> has_errors x"
    using stopped(2) S3Put_quiet(1,2) by (simp add: es_def)
  have h: "\<forall>g. Handling g \<in> set es \<longrightarrow> g \<in> set [f]"
    using stopped(2) S3Put_quiet(3) by (auto simp: es_def)
  have n: "dryrun e \<longrightarrow> (\<forall>x\<in>set es. \<not> is_network x)"
    using stopped(3) by (simp add: es_def)
  have "run_ok e fr fc [f] r es" using q h n by (rule run_ok_quiet)
  moreover have "replay es (files st) = files st" using q by (simp add: replay_quiet)
  moreover have "trace st' = trace st @ es" using stopped(1) by (simp add: es_def)
  ultimately show ?thesis using stopped(4) by (intro exI [of _ es]) simp
next
  case (refused imgs mp res)
  define pre where "pre = Handling f # imgs"
  define es where "es = pre @ [MediumPost mp res]"
  have qp: "\<forall>x\<in>set pre. written x = None \<and> \<not> has_errors x"
    using refused(3) S3Put_quiet(1,2) by (simp add: pre_def)
  have q: "\<forall>x\<in>set es. written x = None" using qp by (simp add: es_def)
  have h: "\<forall>g. Handling g \<in> set es \<longrightarrow> g \<in> set [f]"
    using refused(3) S3Put_quiet(3) by (auto simp: es_def pre_def)
  have "run_ok e fr fc [f] r es"
  proof (rule run_okI)
    show "\<forall>x\<in>set es. \<forall>p. written x = Some p \<longrightarrow> (\<exists>t. x = FsAppend p t) \<and> (p = fr \<or> p = fc)"
      using q by simp
    show "dryrun e \<longrightarrow> (\<forall>x\<in>set es. \<not> is_network x)" using refused(1) by simp
    show "\<forall>g. Handling g \<in> set es \<longrightarrow> g \<in> set [f]" by (rule h)
    show "(\<forall>x\<in>set es. \<not> has_errors x)
          \<or> (r = Inl (Exit 1) \<and> (\<exists>pre ev. es = pre @ [ev] \<and> (\<forall>x\<in>set pre. \<not> has_errors x)))"
    proof (cases "errors_in res")
      case True
      with refused(5) have "r = Inl (Exit 1)" by (auto simp: errors_in_def)
      with qp es_def show ?thesis by blast
    next
      case False
      with qp show ?thesis by (simp add: es_def)
    qed
    show "r = Inr () \<longrightarrow> (\<forall>x\<in>set es. \<not> has_errors x)" using refused(5) by auto
  qed
  moreover have "replay es (files st) = files st" using q by (simp add: replay_quiet)
  moreover have "trace st' = trace st @ es" using refused(2) by (simp add: es_def pre_def)
  ultimately show ?thesis using refused(4) by (intro exI [of _ es]) simp
next
  case (no_data imgs mp rr)
  define es where "es = Handling f # imgs @ [MediumPost mp (Some rr), UploadPostReturned mp None]"
  have q: "\<forall>x\<in>set es. written x = None \<and> \<not> has_errors x"
    using no_data(2,4) S3Put_quiet(1,2) by (simp add: es_def errors_in_def ball_Un)
  have h: "\<forall>g. Handling g \<in> set es \<longrightarrow> g \<in> set [f]"
    using no_data(4) S3Put_quiet(3) by (auto simp: es_def)
  have n: "dryrun e \<longrightarrow> (\<forall>x\<in>set es. \<not> is_network x)" using no_data(1) by simp
  have "run_ok e fr fc [f] r es" using q h n by (rule run_ok_quiet)
  moreover have "replay es (files st) = files st" using q by (simp add: replay_quiet)
  moreover have "trace st' = trace st @ es" using no_data(3) by (simp add: es_def)
  ultimately show ?thesis using no_data(5) by (intro exI [of _ es]) simp
next
  case (migrated imgs pub mp d line)
  define pre where "pre = Handling f # imgs @ pub"
  define es where "es = pre @ [UploadPostReturned mp (Some d), FsAppend fr line, FsAppend fc (f @ [LF])]"
  have qi: "\<forall>x\<in>set imgs. written x = None \<and> \<not> has_errors x \<and> (\<forall>g. x \<noteq> Handling g)"
    using migrated(2) S3Put_quiet(1,2,3) by blast
  have qb: "\<forall>x\<in>set pub. written x = None \<and> \<not> has_errors x \<and> (\<forall>g. x \<noteq> Handling g)"
    using migrated(4) by (auto simp: errors_in_def)
  have q: "\<forall>x\<in>set pre. written x = None \<and> \<not> has_errors x"
    using qi qb by (simp add: pre_def ball_Un)
  have hp: "\<forall>g. Handling g \<in> set pre \<longrightarrow> g = f" using qi qb by (auto simp: pre_def)
  have "run_ok e fr fc [f] r es"
  proof (rule run_okI)
    show "\<forall>x\<in>set es. \<forall>p. written x = Some p \<longrightarrow> (\<exists>t. x = FsAppend p t) \<and> (p = fr \<or> p = fc)"
      using q by (simp add: es_def ball_Un)
    show "dryrun e \<longrightarrow> (\<forall>x\<in>set es. \<not> is_network x)"
      using migrated(3) by (simp add: es_def pre_def)
    show "\<forall>g. Handling g \<in> set es \<longrightarrow> g \<in> set [f]" using hp by (simp add: es_def)
    have "\<forall>x\<in>set es. \<not> has_errors x" using q by (simp add: es_def ball_Un)
    then show "(\<forall>x\<in>set es. \<not> has_errors x)
          \<or> (r = Inl (Exit 1) \<and> (\<exists>pre ev. es = pre @ [ev] \<and> (\<forall>x\<in>set pre. \<not> has_errors x)))"
      and "r = Inr () \<longrightarrow> (\<forall>x\<in>set es. \<not> has_errors x)" by simp_all
  qed
  moreover have "replay pre (files st) = files st" using q by (simp add: replay_quiet)
  then have "replay es (files st) = append_to (append_to (files st) fr line) fc (f @ [LF])"
    by (simp add: es_def replay_append)
  moreover have "trace st' = trace st @ es" using migrated(1) by (simp add: es_def pre_def)
  ultimately show ?thesis using migrated(5) by (intro exI [of _ es]) simp
qed

lemma main_loop_run:
  assumes "main_loop e fr fc st fs = (r, st')"
  shows "\<exists>es. trace st' = trace st @ es \<and> files st' = replay es (files st) \<and> run_ok e fr fc fs r es"
  using assms
proof (induction fs arbitrary: st)
  case Nil
  then have "r = Inr ()" "st' = st" by simp_all
  then show ?case by (intro exI [of _ "[]"]) (simp add: run_ok_def)
next
  case (Cons f rest)
  obtain r1 st1 where p: "process_file e fr fc st f = (r1, st1)"
    by (cases "process_file e fr fc st f")
  from process_file_run [OF p] obtain es1 where
    e1: "trace st1 = trace st @ es1" "files st1 = replay es1 (files st)" "run_ok e fr fc [f] r1 es1"
    by blast
  show ?case
  proof (cases r1)
    case (Inl a)
    with Cons.prems p have "r = Inl a" "st' = st1" by simp_all
    moreover have "run_ok e fr fc (f # rest) r1 es1"
      using e1(3) unfolding run_ok_def by simp
    ultimately show ?thesis using e1 Inl by (intro exI [of _ es1]) simp
  next
    case (Inr u)
    with Cons.prems p have "main_loop e fr fc st1 rest = (r, st')" by simp
    from Cons.IH [OF this] obtain es2 where
      e2: "trace st' = trace st1 @ es2" "files st' = replay es2 (files st1)" "run_ok e fr fc rest r es2"
      by blast
    have "run_ok e fr fc [f] (Inr ()) es1" using e1(3) Inr by simp
    then have "run_ok e fr fc (f # rest) r (es1 @ es2)" using e2(3) by (rule run_ok_step)
    with e1 e2 show ?thesis by (intro exI [of _ "es1 @ es2"]) (simp add: replay_append)
  qed
qed

lemma errors_last_snoc_error:
  "\<forall>x\<in>set pre. \<not> has_errors x \<Longrightarrow> errors_last (Inl (Exit 1)) (pre @ [ev])"
  unfolding errors_last_def by blast

lemma errors_last_quiet: "\<forall>x\<in>set es. \<not> has_errors x \<Longrightarrow> errors_last out es"
  unfolding errors_last_def by blast

lemma errors_last_prepend:
  assumes "\<forall>x\<in>set xs. \<not> has_errors x" and "errors_last out es"
  shows "errors_last out (xs @ es)"
proof (cases "\<forall>x\<in>set es. \<not> has_errors x")
  case True
  with assms(1) show ?thesis by (intro errors_last_quiet) auto
next
  case False
  with assms(2) obtain pre ev where "out = Inl (Exit 1)" "es = pre @ [ev]" "\<forall>x\<in>set pre. \<not> has_errors x"
    unfolding errors_last_def by blast
  with assms(1) have "out = Inl (Exit 1) \<and> xs @ es = (xs @ pre) @ [ev] \<and> (\<forall>x\<in>set (xs @ pre). \<not> has_errors x)"
    by auto
  then show ?thesis unfolding errors_last_def by blast
qed

lemma errors_last_append_quiet:
  assumes "errors_last out es" and "\<forall>x\<in>set es. \<not> has_errors x" and "\<forall>x\<in>set ys. \<not> has_errors x"
  shows "errors_last out' (es @ ys)"
  using assms(2,3) by (intro errors_last_quiet) auto

lemma snoc_eq_mid:
  assumes "\<forall>x\<in>set pre. \<not> P x" and "pre @ [ev] = p @ x # q" and "P x"
  shows "q = [] \<and> p = pre \<and> x = ev"
  using assms
proof (induction pre arbitrary: p)
  case Nil
  then show ?case by (cases p) auto
next
  case (Cons a pre)
  show ?case
  proof (cases p)
    case Nil
    with Cons.prems show ?thesis by auto
  next
    case (Cons b p')
    with Cons.prems have "pre @ [ev] = p' @ x # q" "a = b" by auto
    with Cons.IH [of p'] Cons.prems(1,3) Cons show ?thesis by auto
  qed
qed

lemma errors_lastD:
  assumes "errors_last out es" and "es = p @ x # q" and "has_errors x"
  shows "q = [] \<and> out = Inl (Exit 1)"
proof -
  have "\<not> (\<forall>y\<in>set es. \<not> has_errors y)" using assms(2,3) by auto
  with assms(1) obtain pre ev where o: "out = Inl (Exit 1)" and e: "es = pre @ [ev]"
    and n: "\<forall>y\<in>set pre. \<not> has_errors y"
    unfolding errors_last_def by blast
  from snoc_eq_mid [OF n, of ev p x q] e assms(2,3) o show ?thesis by simp
qed

lemma replay_frame:
  "\<forall>x\<in>set es. \<forall>q. written x = Some q \<longrightarrow> q \<noteq> p \<Longrightarrow> replay es fs p = fs p"
proof (induction es arbitrary: fs)
  case Nil
  then show ?case by simp
next
  case (Cons x xs)
  then show ?case by (cases x) (auto simp: append_to_def)
qed

lemma dryrun_not_p: "dryrun e \<Longrightarrow> arg e 2 \<noteq> Some ''-p''"
  by (simp add: dryrun_def)

lemma ledger_names_differ: "fileRedirect e \<noteq> fileCompleted e"
  by (simp add: fileRedirect_def fileCompleted_def)

lemma getMediumUserId_run:
  assumes "getMediumUserId e st = (r, st')"
  obtains res where "trace st' = trace st @ [MediumMe res]" "files st' = files st"
    "errors_in res \<Longrightarrow> r = Inl (Exit 1)" "\<And>v. r = Inr v \<Longrightarrow> \<not> errors_in res"
proof -
  define res where "res = api_me e (length (trace st))"
  have "trace st' = trace st @ [MediumMe res]" "files st' = files st"
    using assms
    by (auto simp: getMediumUserId_def Let_def res_def handleMediumErrors_def
             split: option.splits sum.splits)
  moreover have "errors_in res \<Longrightarrow> r = Inl (Exit 1)"
    using assms
    by (auto simp: getMediumUserId_def Let_def res_def handleMediumErrors_def errors_in_def
             split: option.splits sum.splits)
  moreover have "\<And>v. r = Inr v \<Longrightarrow> \<not> errors_in res"
    using assms
    by (auto simp: getMediumUserId_def Let_def res_def handleMediumErrors_def errors_in_def
             split: option.splits sum.splits)
  ultimately show ?thesis using that by blast
qed

lemma getMediumPublicationId_run:
  assumes "getMediumPublicationId e st userId pub = (r, st')"
  obtains res where "trace st' = trace st @ [MediumPublications userId res]" "files st' = files st"
    "errors_in res \<Longrightarrow> r = Inl (Exit 1)" "\<And>v. r = Inr v \<Longrightarrow> \<not> errors_in res"
proof -
  define res where "res = api_publications e (length (trace st)) userId"
  have "trace st' = trace st @ [MediumPublications userId res]" "files st' = files st"
    using assms
    by (auto simp: getMediumPublicationId_def Let_def res_def handleMediumErrors_def
             split: option.splits sum.splits)
  moreover have "errors_in res \<Longrightarrow> r = Inl (Exit 1)"
    using assms
    by (auto simp: getMediumPublicationId_def Let_def res_def handleMediumErrors_def errors_in_def
             split: option.splits sum.splits)
  moreover have "\<And>v. r = Inr v \<Longrightarrow> \<not> errors_in res"
    using assms
    by (auto simp: getMediumPublicationId_def Let_def res_def handleMediumErrors_def errors_in_def
             split: option.splits sum.splits)
  ultimately show ?thesis using that by blast
qed

section \<open>The run as a whole\<close>

lemma main_ok_quiet:
  assumes "trace st' = trace st @ es" and "files st' = files st"
    and "\<forall>x\<in>set es. written x = None \<and> (\<forall>f. x \<noteq> Handling f)"
    and "errors_last out es" and "\<not> dryrun e"
  shows "main_ok e st out st' es"
proof -
  have "replay es (files st) = files st" using assms(3) by (simp add: replay_quiet)
  moreover have "\<forall>x\<in>set es. \<forall>line. x \<noteq> FsAppend (fileCompleted e) line" using assms(3) by auto
  then have "completions_ok (fileRedirect e) (fileCompleted e) (trace st) \<longrightarrow>
      completions_ok (fileRedirect e) (fileCompleted e) (trace st')"
    using completions_ok_append assms(1) by simp
  moreover have "\<forall>f. Handling f \<notin> set es" using assms(3) by blast
  ultimately show ?thesis
    unfolding main_ok_def using assms(1,2,3,4,5) by simp
qed

lemma main_publication_mode:
  assumes "main e st = (out, st')" and "arg e 2 = Some ''-p'' \<and> present (arg e 3)"
  shows "\<exists>es. main_ok e st out st' es"
proof -
  have nd: "\<not> dryrun e" using assms(2) by (simp add: dryrun_def)
  obtain r1 st1 where u: "getMediumUserId e st = (r1, st1)" by (cases "getMediumUserId e st")
  from getMediumUserId_run [OF u] obtain res1 where
    t1: "trace st1 = trace st @ [MediumMe res1]" and f1: "files st1 = files st"
    and x1: "errors_in res1 \<Longrightarrow> r1 = Inl (Exit 1)" and y1: "\<And>v. r1 = Inr v \<Longrightarrow> \<not> errors_in res1"
    by blast
  show ?thesis
  proof (cases r1)
    case (Inl a)
    with assms u have o: "out = Inl a" "st' = st1" by (simp_all add: main_def)
    have "errors_last out [MediumMe res1]"
    proof (cases "errors_in res1")
      case True
      with x1 Inl o have "out = Inl (Exit 1)" by simp
      with errors_last_snoc_error [of "[]" "MediumMe res1"] show ?thesis by simp
    next
      case False
      then show ?thesis by (intro errors_last_quiet) simp
    qed
    with o t1 f1 nd have "main_ok e st out st' [MediumMe res1]"
      by (intro main_ok_quiet) simp_all
    then show ?thesis ..
  next
    case (Inr userId)
    from y1 [OF Inr] have ne1: "\<not> errors_in res1" .
    obtain r2 st2 where p: "getMediumPublicationId e st1 userId (env_str (arg e 3)) = (r2, st2)"
      by (cases "getMediumPublicationId e st1 userId (env_str (arg e 3))")
    from getMediumPublicationId_run [OF p] obtain res2 where
      t2: "trace st2 = trace st1 @ [MediumPublications userId res2]" and f2: "files st2 = files st1"
      and x2: "errors_in res2 \<Longrightarrow> r2 = Inl (Exit 1)" and y2: "\<And>v. r2 = Inr v \<Longrightarrow> \<not> errors_in res2"
      by blast
    have st': "st' = st2" and out: "out = (case r2 of Inl a \<Rightarrow> Inl a | Inr v \<Rightarrow> Inl (Exit 0))"
      using assms u Inr p by (auto simp: main_def split: sum.splits)
    let ?es = "[MediumMe res1, MediumPublications userId res2]"
    have "errors_last out ?es"
    proof (cases "errors_in res2")
      case True
      with x2 out have "out = Inl (Exit 1)" by simp
      with errors_last_snoc_error [of "[MediumMe res1]" "MediumPublications userId res2"] ne1
      show ?thesis by simp
    next
      case False
      with ne1 show ?thesis by (intro errors_last_quiet) simp
    qed
    with st' t1 t2 f1 f2 nd have "main_ok e st out st' ?es"
      by (intro main_ok_quiet) simp_all
    then show ?thesis ..
  qed
qed

lemma run_ok_errors_last: "run_ok e fr fc fs r es \<Longrightarrow> errors_last r es"
  by (simp add: run_ok_def errors_last_def)

lemma read_completed_seeded:
  assumes "files st1 fc = Some (readOrEmpty st ''upload-complete.csv'')"
  shows "set (read_completed st ''upload-complete.csv'') \<subseteq> set (read_completed st1 fc)"
  using assms by (auto simp: read_completed_def readOrEmpty_def split: option.splits)

lemma main_loop_mode:
  assumes "main e st = (out, st')" and "\<not> (arg e 2 = Some ''-p'' \<and> present (arg e 3))"
    and "present (MEDIUM_PUB_ID e)"
  shows "\<exists>es. main_ok e st out st' es"
proof -
  let ?fr = "fileRedirect e" and ?fc = "fileCompleted e"
  define seed where "seed = (if dryrun e then [FsWrite ?fr (readOrEmpty st ''redirects.json''),
      FsWrite ?fc (readOrEmpty st ''upload-complete.csv'')] else [])"
  define st1 where "st1 = (if dryrun e then
       writeFileSync ?fc (readOrEmpty st ''upload-complete.csv'')
         (writeFileSync ?fr (readOrEmpty st ''redirects.json'') st)
     else st)"
  define fs where "fs = getPostsFilesToProcess e st1 ?fc"
  have t1: "trace st1 = trace st @ seed" and f1: "files st1 = replay seed (files st)"
    by (simp_all add: st1_def seed_def)
  have seed_q: "\<forall>x\<in>set seed. \<not> has_errors x \<and> \<not> is_network x \<and> (\<forall>f. x \<noteq> Handling f)
      \<and> (\<forall>l. x \<noteq> FsAppend ?fc l) \<and> (\<forall>p. written x = Some p \<longrightarrow> p = ?fr \<or> p = ?fc)"
    by (auto simp: seed_def)
  obtain r2 st2 where l: "main_loop e ?fr ?fc st1 fs = (r2, st2)"
    by (cases "main_loop e ?fr ?fc st1 fs")
  from main_loop_run [OF l] obtain es2 where
    t2: "trace st2 = trace st1 @ es2" and f2: "files st2 = replay es2 (files st1)"
    and ok: "run_ok e ?fr ?fc fs r2 es2" by blast
  define fin where "fin = (if dryrun e \<and> r2 = Inr () then [FsUnlink ?fr, FsUnlink ?fc] else [])"
  have m: "(out, st') = (case r2 of Inl a \<Rightarrow> (Inl a, st2)
      | Inr u \<Rightarrow> if dryrun e then (Inr (), unlinkSync ?fc (unlinkSync ?fr st2)) else (Inr (), st2))"
    using assms l by (simp add: main_def Let_def st1_def [symmetric] fs_def [symmetric] split: sum.splits)
  have out: "out = r2" using m by (cases r2) (auto split: if_splits)
  have t3: "trace st' = trace st2 @ fin" and f3: "files st' = replay fin (files st2)"
    using m by (cases r2; auto simp: fin_def split: if_splits)+
  have fin_q: "\<forall>x\<in>set fin. \<not> has_errors x \<and> \<not> is_network x \<and> (\<forall>f. x \<noteq> Handling f)
      \<and> (\<forall>l. x \<noteq> FsAppend ?fc l) \<and> (\<forall>p. written x = Some p \<longrightarrow> p = ?fr \<or> p = ?fc)"
    by (auto simp: fin_def)
  let ?es = "seed @ es2 @ fin"
  have a: "trace st' = trace st @ ?es" using t1 t2 t3 by simp
  have b: "files st' = replay ?es (files st)" using f1 f2 f3 by (simp add: replay_append)
  have c: "errors_last out ?es"
  proof (cases "fin = []")
    case True
    from run_ok_errors_last [OF ok] have "errors_last out es2" using out by simp
    with seed_q have "errors_last out (seed @ es2)" by (intro errors_last_prepend) auto
    with True show ?thesis by simp
  next
    case False
    then have "r2 = Inr ()" by (simp add: fin_def split: if_splits)
    with ok have "\<forall>x\<in>set es2. \<not> has_errors x" by (simp add: run_ok_def)
    with seed_q fin_q show ?thesis by (intro errors_last_quiet) auto
  qed
  have d: "\<forall>x\<in>set ?es. \<forall>p. written x = Some p \<longrightarrow> p = ?fr \<or> p = ?fc"
  proof -
    have "\<forall>x\<in>set es2. \<forall>p. written x = Some p \<longrightarrow> p = ?fr \<or> p = ?fc"
      using ok by (simp add: run_ok_def)
    with seed_q fin_q show ?thesis by (simp add: ball_Un)
  qed
  have n: "dryrun e \<longrightarrow> (\<forall>x\<in>set ?es. \<not> is_network x)"
  proof -
    have "dryrun e \<longrightarrow> (\<forall>x\<in>set es2. \<not> is_network x)" using ok by (simp add: run_ok_def)
    with seed_q fin_q show ?thesis by (simp add: ball_Un)
  qed
  have h: "\<not> (dryrun e \<and> present (arg e 3)) \<longrightarrow>
      (\<forall>f. Handling f \<in> set ?es \<longrightarrow> f \<notin> set (read_completed st ''upload-complete.csv''))"
  proof (intro impI allI)
    fix f
    assume np: "\<not> (dryrun e \<and> present (arg e 3))" and "Handling f \<in> set ?es"
    with seed_q fin_q have "Handling f \<in> set es2" by auto
    with ok have "f \<in> set fs" by (simp add: run_ok_def)
    then have nc: "f \<notin> set (read_completed st1 ?fc)"
      using np by (auto simp: fs_def getPostsFilesToProcess_def Let_def dest: in_set_takeD)
    have "set (read_completed st ''upload-complete.csv'') \<subseteq> set (read_completed st1 ?fc)"
    proof (cases "dryrun e")
      case True
      then have "files st1 ?fc = Some (readOrEmpty st ''upload-complete.csv'')"
        by (simp add: st1_def)
      then show ?thesis by (rule read_completed_seeded)
    next
      case False
      then show ?thesis by (simp add: st1_def fileCompleted_def)
    qed
    with nc show "f \<notin> set (read_completed st ''upload-complete.csv'')" by blast
  qed
  have g: "completions_ok ?fr ?fc (trace st) \<longrightarrow> completions_ok ?fr ?fc (trace st')"
  proof
    assume "completions_ok ?fr ?fc (trace st)"
    with seed_q t1 have "completions_ok ?fr ?fc (trace st1)"
      using completions_ok_append [of ?fr ?fc "trace st" seed] by simp
    from main_loop_completions [OF l ledger_names_differ this]
    have "completions_ok ?fr ?fc (trace st2)" .
    with fin_q t3 show "completions_ok ?fr ?fc (trace st')"
      using completions_ok_append [of ?fr ?fc "trace st2" fin] by simp
  qed
  have k: "dryrun e \<and> out = Inr () \<longrightarrow> files st' ?fr = None \<and> files st' ?fc = None"
    using f3 out by (simp add: fin_def)
  from a b c d n h g k have "main_ok e st out st' ?es" unfolding main_ok_def by blast
  then show ?thesis ..
qed

lemma main_run:
  assumes "main e st = (out, st')"
  shows "\<exists>es. main_ok e st out st' es"
proof (cases "arg e 2 = Some ''-p'' \<and> present (arg e 3)")
  case True
  with assms show ?thesis by (rule main_publication_mode)
next
  case False
  show ?thesis
  proof (cases "present (MEDIUM_PUB_ID e)")
    case True
    with assms False show ?thesis by (intro main_loop_mode)
  next
    case np: False
    with assms False have "out = Inl (Exit 1)" "st' = st" by (simp_all add: main_def)
    then have "main_ok e st out st' []" by (simp add: main_ok_def errors_last_def dryrun_def)
    then show ?thesis ..
  qed
qed

lemma script_run:
  assumes "script e st = (out, st')"
  shows "\<exists>es. main_ok e st out st' es"
proof (cases "script e st = main e st")
  case True
  with assms main_run show ?thesis by simp
next
  case False
  with assms have "out = Inl (Exit 1)" "st' = st" by (auto simp: script_def split: if_splits)
  then have "main_ok e st out st' []" by (simp add: main_ok_def errors_last_def)
  then show ?thesis ..
qed

section \<open>Errors of the publishing platform\<close>

lemma main_okD:
  assumes "main_ok e st out st' es"
  shows "trace st' = trace st @ es"
    and "files st' = replay es (files st)"
    and "errors_last out es"
    and "\<forall>x\<in>set es. \<forall>p. written x = Some p \<longrightarrow> p = fileRedirect e \<or> p = fileCompleted e"
    and "dryrun e \<Longrightarrow> \<forall>x\<in>set es. \<not> is_network x"
    and "\<not> (dryrun e \<and> present (arg e 3)) \<Longrightarrow>
           \<forall>f. Handling f \<in> set es \<longrightarrow> f \<notin> set (read_completed st ''upload-complete.csv'')"
    and "completions_ok (fileRedirect e) (fileCompleted e) (trace st) \<Longrightarrow>
           completions_ok (fileRedirect e) (fileCompleted e) (trace st')"
    and "dryrun e \<Longrightarrow> out = Inr () \<Longrightarrow>
           files st' (fileRedirect e) = None \<and> files st' (fileCompleted e) = None"
  using assms unfolding main_ok_def by blast+


text \<open>
  C3. In every run of the script, a response of the Medium API that contains an errors
  array is the last event of the run: nothing is sent, written or started after it, so
  no further post is processed. The process ends with code 1, and the file system is
  the one left by the writes made before the response: every record appended before
  the failure is still in the ledger files.
\<close>

theorem medium_errors_end_the_run:
  assumes "script e st = (out, st')"
  shows "\<exists>es. trace st' = trace st @ es
           \<and> (\<forall>pre ev post. es = pre @ ev # post \<and> has_errors ev \<longrightarrow>
                 post = [] \<and> out = Inl (Exit 1) \<and> files st' = replay pre (files st))"
proof -
  from script_run [OF assms] obtain es where m: "main_ok e st out st' es" ..
  note t = main_okD(1) [OF m] and f = main_okD(2) [OF m] and l = main_okD(3) [OF m]
  have "post = [] \<and> out = Inl (Exit 1) \<and> files st' = replay pre (files st)"
    if "es = pre @ ev # post" "has_errors ev" for pre ev post
  proof -
    from errors_lastD [OF l that] have p: "post = []" and o: "out = Inl (Exit 1)" by simp_all
    have "written ev = None" using that(2) by (cases ev) simp_all
    then have "replay [ev] (replay pre (files st)) = replay pre (files st)"
      by (intro replay_quiet) simp
    with f that(1) p have "files st' = replay pre (files st)" by (simp add: replay_append)
    with p o show ?thesis by simp
  qed
  with t show ?thesis by blast
qed

lemma rejected_run_eval:
  "(case script posts_env (fresh posts_fs) of
      (out, st') \<Rightarrow> (out, trace st', files st' ''upload-complete.csv''))
   = (Inl (Exit 1),
      [Handling hello_file,
       MediumPost \<lparr>mp_title = JStr ''Hello World'', contentFormat = ''markdown'',
                   publishedAt = ''2018-01-05T00:00:00.000Z'', mp_content = ''Hello''\<rparr>
         (Some \<lparr>errors = None, data = Some \<lparr>data_url = Some ''https://medium.com/p/1''\<rparr>\<rparr>),
       UploadPostReturned \<lparr>mp_title = JStr ''Hello World'', contentFormat = ''markdown'',
                   publishedAt = ''2018-01-05T00:00:00.000Z'', mp_content = ''Hello''\<rparr>
         (Some \<lparr>data_url = Some ''https://medium.com/p/1''\<rparr>),
       FsAppend ''redirects.json'' (redirect_line ''https://developmentseed.org/blog/2018/01/05/hello''
          (Some ''https://medium.com/p/1'')),
       FsAppend ''upload-complete.csv'' (hello_file @ [LF]),
       Handling bye_file,
       MediumPost \<lparr>mp_title = JStr ''Bye'', contentFormat = ''markdown'',
                   publishedAt = ''2018-01-05T00:00:00.000Z'', mp_content = ''Hello''\<rparr>
         (Some \<lparr>errors = Some [''Bad request''], data = None\<rparr>)],
      Some (old_file @ [LF] @ hello_file @ [LF]))"
  by code_simp

lemma rejected_run:
  "fst (script posts_env (fresh posts_fs)) = Inl (Exit 1)"
  "has_errors (last (trace (snd (script posts_env (fresh posts_fs)))))"
  "Handling bye_file \<in> set (trace (snd (script posts_env (fresh posts_fs))))"
  "Handling third_file \<notin> set (trace (snd (script posts_env (fresh posts_fs))))"
  "Handling old_file \<notin> set (trace (snd (script posts_env (fresh posts_fs))))"
  "files (snd (script posts_env (fresh posts_fs))) ''upload-complete.csv''
     = Some (old_file @ [LF] @ hello_file @ [LF])"
  "trace (snd (script posts_env (fresh posts_fs))) ! 4 = FsAppend ''upload-complete.csv'' (hello_file @ [LF])"
  using rejected_run_eval
  by (simp_all add: case_prod_unfold errors_in_def hello_file_def bye_file_def third_file_def old_file_def)

text \<open>
  C3, witness: a live run over three pending posts in which Medium accepts the first
  and rejects the second. The run ends with code 1 on the rejection, the third post is
  never started, and the completion ledger holds the line it had and the first post.
\<close>

theorem medium_errors_end_the_run_witness:
  "has_errors (last (trace (snd (script posts_env (fresh posts_fs)))))
   \<and> fst (script posts_env (fresh posts_fs)) = Inl (Exit 1)
   \<and> files (snd (script posts_env (fresh posts_fs)))
       = replay (butlast (trace (snd (script posts_env (fresh posts_fs))))) posts_fs
   \<and> Handling bye_file \<in> set (trace (snd (script posts_env (fresh posts_fs))))
   \<and> Handling third_file \<notin> set (trace (snd (script posts_env (fresh posts_fs))))
   \<and> files (snd (script posts_env (fresh posts_fs))) ''upload-complete.csv''
       = Some (old_file @ [LF] @ hello_file @ [LF])"
proof -
  let ?t = "trace (snd (script posts_env (fresh posts_fs)))"
  have "script posts_env (fresh posts_fs)
      = (fst (script posts_env (fresh posts_fs)), snd (script posts_env (fresh posts_fs)))" by simp
  from medium_errors_end_the_run [OF this] obtain es where
    t: "?t = trace (fresh posts_fs) @ es"
    and l: "\<And>pre ev post. es = pre @ ev # post \<Longrightarrow> has_errors ev \<Longrightarrow>
       post = [] \<and> fst (script posts_env (fresh posts_fs)) = Inl (Exit 1)
       \<and> files (snd (script posts_env (fresh posts_fs))) = replay pre (files (fresh posts_fs))"
    by blast
  have es: "es = ?t" using t by (simp add: fresh_def)
  have "?t \<noteq> []" using rejected_run(3) by auto
  then have "es = butlast ?t @ last ?t # []" using es by simp
  from l [OF this rejected_run(2)] rejected_run show ?thesis by (simp add: fresh_def)
qed

section \<open>The completion ledger\<close>



lemma pattern_run_eval:
  "(case script pattern_env (fresh done_fs) of
      (out, st') \<Rightarrow> (out, trace st', files st' ''upload-complete.csv'', files st' ''redirects.json'',
                    files st' ''dryrun-upload-complete.csv'', files st' ''dryrun-redirects.json''))
   = (Inr (),
      [FsWrite ''dryrun-redirects.json'' [],
       FsWrite ''dryrun-upload-complete.csv'' (hello_file @ [LF]),
       Handling hello_file,
       UploadPostReturned \<lparr>mp_title = JStr ''Hello World'', contentFormat = ''markdown'',
                   publishedAt = ''2018-01-05T00:00:00.000Z'', mp_content = ''Hello''\<rparr>
         (Some \<lparr>data_url = Some ''http://localhost/post/hello-world''\<rparr>),
       FsAppend ''dryrun-redirects.json'' (redirect_line ''https://developmentseed.org/blog/2018/01/05/hello''
          (Some ''http://localhost/post/hello-world'')),
       FsAppend ''dryrun-upload-complete.csv'' (hello_file @ [LF]),
       FsUnlink ''dryrun-redirects.json'',
       FsUnlink ''dryrun-upload-complete.csv''],
      Some (hello_file @ [LF]), None, None, None)"
  by code_simp


section \<open>Dry runs\<close>

lemma uploadPost_body_dryrun:
  "dryrun e \<Longrightarrow> snd (uploadPost_body e st mp) = st"
  by (simp add: uploadPost_body_def split: jsval.splits)

text \<open>
  C9, as amended. In a dry run, no event of the run is a request to S3 or to Medium;
  every write goes to \<open>dryrun-redirects.json\<close> or \<open>dryrun-upload-complete.csv\<close>, and every
  other file, the live ledgers among them, is left as it was; when the run reaches its
  end (\<open>main\<close> returns), the two disposable files have been deleted. \<open>uploadImage\<close> and
  \<open>uploadPost\<close> change nothing; \<open>uploadImage\<close> returns its placeholder URL, and so does
  \<open>uploadPost\<close> for a post whose title is a string.
\<close>

theorem dryrun_frame:
  assumes "dryrun e" and "script e st = (out, st')"
  shows "(\<exists>es. trace st' = trace st @ es
           \<and> (\<forall>x\<in>set es. \<not> is_network x)
           \<and> (\<forall>x\<in>set es. \<forall>p. written x = Some p \<longrightarrow>
                 p = ''dryrun-redirects.json'' \<or> p = ''dryrun-upload-complete.csv''))
       \<and> (\<forall>p. p \<noteq> ''dryrun-redirects.json'' \<and> p \<noteq> ''dryrun-upload-complete.csv'' \<longrightarrow>
              files st' p = files st p)
       \<and> (out = Inr () \<longrightarrow>
              files st' ''dryrun-redirects.json'' = None \<and> files st' ''dryrun-upload-complete.csv'' = None)
       \<and> (\<forall>s img. uploadImage e s img =
              (Inr (''http://localhost/test/images/'' @ basename (replace_re devseedPrefixRegex [] img)), s))
       \<and> (\<forall>s mp. snd (uploadPost_body e s mp) = s
              \<and> (\<forall>t. mp_title mp = JStr t \<longrightarrow>
                    fst (uploadPost_body e s mp) =
                      Inr (Some \<lparr>data_url = Some (''http://localhost/post/''
                                     @ replace_str '' '' ''-'' (toLowerCase t))\<rparr>)))"
proof -
  from script_run [OF assms(2)] obtain es where m: "main_ok e st out st' es" ..
  have fr: "fileRedirect e = ''dryrun-redirects.json''" and fc: "fileCompleted e = ''dryrun-upload-complete.csv''"
    using assms(1) by (simp_all add: fileRedirect_def fileCompleted_def)
  note t = main_okD(1) [OF m] and f = main_okD(2) [OF m] and n = main_okD(5) [OF m assms(1)]
  have w: "\<forall>x\<in>set es. \<forall>p. written x = Some p \<longrightarrow>
                 p = ''dryrun-redirects.json'' \<or> p = ''dryrun-upload-complete.csv''"
    using main_okD(4) [OF m] by (simp only: fr fc)
  have k: "out = Inr () \<longrightarrow>
              files st' ''dryrun-redirects.json'' = None \<and> files st' ''dryrun-upload-complete.csv'' = None"
    using main_okD(8) [OF m assms(1)] by (simp only: fr fc) blast
  have frame: "files st' p = files st p"
    if "p \<noteq> ''dryrun-redirects.json'' \<and> p \<noteq> ''dryrun-upload-complete.csv''" for p
  proof -
    have "\<forall>x\<in>set es. \<forall>q. written x = Some q \<longrightarrow> q \<noteq> p" using w that by blast
    from replay_frame [OF this] f show ?thesis by simp
  qed
  show ?thesis
  proof (intro conjI)
    show "\<exists>es. trace st' = trace st @ es
           \<and> (\<forall>x\<in>set es. \<not> is_network x)
           \<and> (\<forall>x\<in>set es. \<forall>p. written x = Some p \<longrightarrow>
                 p = ''dryrun-redirects.json'' \<or> p = ''dryrun-upload-complete.csv'')"
      using t n w by (intro exI [of _ es] conjI)
    show "\<forall>p. p \<noteq> ''dryrun-redirects.json'' \<and> p \<noteq> ''dryrun-upload-complete.csv'' \<longrightarrow>
              files st' p = files st p"
      using frame by (intro allI impI)
    show "out = Inr () \<longrightarrow>
              files st' ''dryrun-redirects.json'' = None \<and> files st' ''dryrun-upload-complete.csv'' = None"
      by (rule k)
    show "\<forall>s img. uploadImage e s img =
              (Inr (''http://localhost/test/images/'' @ basename (replace_re devseedPrefixRegex [] img)), s)"
      using uploadImage_dryrun [OF assms(1)] by (intro allI)
    show "\<forall>s mp. snd (uploadPost_body e s mp) = s
              \<and> (\<forall>t. mp_title mp = JStr t \<longrightarrow>
                    fst (uploadPost_body e s mp) =
                      Inr (Some \<lparr>data_url = Some (''http://localhost/post/''
                                     @ replace_str '' '' ''-'' (toLowerCase t))\<rparr>))"
    proof (intro allI conjI impI)
      fix s and mp :: mediumPost
      show "snd (uploadPost_body e s mp) = s" using assms(1) by (rule uploadPost_body_dryrun)
    next
      fix s and mp :: mediumPost and t
      assume "mp_title mp = JStr t"
      with assms(1) show "fst (uploadPost_body e s mp) =
          Inr (Some \<lparr>data_url = Some (''http://localhost/post/'' @ replace_str '' '' ''-'' (toLowerCase t))\<rparr>)"
        by (simp add: uploadPost_body_def)
    qed
  qed
qed

lemma dryrun_pattern_env: "dryrun pattern_env"
  by code_simp

text \<open>
  C9, witness: the dry run above reaches its end; the live ledgers are as they were
  and the disposable files are gone.
\<close>

theorem dryrun_frame_witness:
  "dryrun pattern_env
   \<and> fst (script pattern_env (fresh done_fs)) = Inr ()
   \<and> filter is_network (trace (snd (script pattern_env (fresh done_fs)))) = []
   \<and> files (snd (script pattern_env (fresh done_fs))) ''upload-complete.csv'' = done_fs ''upload-complete.csv''
   \<and> files (snd (script pattern_env (fresh done_fs))) ''redirects.json'' = done_fs ''redirects.json''
   \<and> files (snd (script pattern_env (fresh done_fs))) ''dryrun-redirects.json'' = None
   \<and> files (snd (script pattern_env (fresh done_fs))) ''dryrun-upload-complete.csv'' = None"
proof -
  have "script pattern_env (fresh done_fs)
      = (fst (script pattern_env (fresh done_fs)), snd (script pattern_env (fresh done_fs)))" by simp
  note T = dryrun_frame [OF dryrun_pattern_env this]
  from T [THEN conjunct1] obtain es where
    "trace (snd (script pattern_env (fresh done_fs))) = trace (fresh done_fs) @ es"
    "\<forall>x\<in>set es. \<not> is_network x" by blast
  then have a: "filter is_network (trace (snd (script pattern_env (fresh done_fs)))) = []"
    by (simp add: fresh_def filter_empty_conv)
  note F = T [THEN conjunct2, THEN conjunct1, rule_format]
  have b: "files (snd (script pattern_env (fresh done_fs))) ''upload-complete.csv'' = done_fs ''upload-complete.csv''"
    using F [of "''upload-complete.csv''"] by (simp add: fresh_def)
  have c: "files (snd (script pattern_env (fresh done_fs))) ''redirects.json'' = done_fs ''redirects.json''"
    using F [of "''redirects.json''"] by (simp add: fresh_def)
  have o: "fst (script pattern_env (fresh done_fs)) = Inr ()"
    using pattern_run_eval by (simp add: case_prod_unfold)
  from T [THEN conjunct2, THEN conjunct2, THEN conjunct1, rule_format, OF o]
  show ?thesis using dryrun_pattern_env a b c o by (intro conjI) simp_all
qed

lemma untitled_run_eval:
  "(case script dry_posts_env (fresh untitled_fs) of
      (out, st') \<Rightarrow> (out, trace st', files st' ''dryrun-upload-complete.csv'', files st' ''dryrun-redirects.json''))
   = (Inl (Throw TypeError),
      [FsWrite ''dryrun-redirects.json'' [], FsWrite ''dryrun-upload-complete.csv'' [], Handling old_file],
      Some [], Some [])"
  by code_simp

text \<open>
  C9, counterexample: a dry run over a post without a title. \<open>uploadPost\<close> throws a
  TypeError, nothing catches it, and the run is over with the two disposable files
  still there.
\<close>

theorem dryrun_abort_keeps_disposable_files:
  "dryrun dry_posts_env
   \<and> fst (script dry_posts_env (fresh untitled_fs)) = Inl (Throw TypeError)
   \<and> files (snd (script dry_posts_env (fresh untitled_fs))) ''dryrun-upload-complete.csv'' \<noteq> None
   \<and> files (snd (script dry_posts_env (fresh untitled_fs))) ''dryrun-redirects.json'' \<noteq> None"
proof -
  have "dryrun dry_posts_env" by code_simp
  then show ?thesis using untitled_run_eval by (simp add: case_prod_unfold)
qed

section \<open>Applying a transformer twice\<close>

subsection \<open>Global replacement of a plain pattern\<close>

text \<open>
  For a plain pattern the global replacement can be read off the text from left to
  right: where the pattern matches, the replacement is followed by the replacement
  of what comes after the match; elsewhere one character is kept.
\<close>

lemma plain_flag: "plain r \<Longrightarrow> match_at r b s = match_at r False s"
  by (simp add: plain_def)

lemma plain_len: "plain r \<Longrightarrow> match_at r False s = Some (n, c) \<Longrightarrow> 0 < n \<and> n \<le> length s"
  unfolding plain_def by blast

lemma plain_Nil: "plain r \<Longrightarrow> match_at r b [] = None"
proof (rule ccontr)
  assume p: "plain r" and "match_at r b [] \<noteq> None"
  then obtain n c where "match_at r False [] = Some (n, c)" using plain_flag [OF p, of b "[]"] by auto
  from plain_len [OF p this] show False by auto
qed

lemma search_here: "match_at r b t = Some (n, c) \<Longrightarrow> search r b t = Some (0, n, c)"
  by (cases t) simp_all

lemma exec_here:
  assumes "plain r" and "li \<le> length s" and "match_at r False (drop li s) = Some (n, c)"
  shows "exec r s li = (Some \<lparr>index = li, mlen = n, groups = c\<rparr>, li + n)"
proof -
  have "match_at r (li = 0) (drop li s) = Some (n, c)"
    using plain_flag [OF assms(1), of "li = 0" "drop li s"] assms(3) by simp
  from search_here [OF this] assms(2) show ?thesis by (simp add: exec_def)
qed

lemma exec_skip:
  assumes "plain r" and "li < length s" and "match_at r False (drop li s) = None"
  shows "exec r s li = exec r s (Suc li)"
proof -
  have d: "drop li s = s ! li # drop (Suc li) s" using assms(2) by (simp add: Cons_nth_drop_Suc)
  have "match_at r (li = 0) (s ! li # drop (Suc li) s) = None"
    using plain_flag [OF assms(1), of "li = 0" "drop li s"] assms(3) d by simp
  then have "search r (li = 0) (drop li s)
      = map_option (\<lambda>(k, n, c). (Suc k, n, c)) (search r False (drop (Suc li) s))"
    using d by simp
  then show ?thesis using assms(2) by (auto simp: exec_def split: option.splits)
qed

lemma exec_end:
  assumes "plain r"
  shows "exec r s (length s) = (None, 0)"
  using plain_Nil [OF assms] by (simp add: exec_def)

lemma splice_step:
  assumes "li < length s" and "\<forall>m\<in>set ms. Suc li \<le> index m"
  shows "splice s repl li ms = s ! li # splice s repl (Suc li) ms"
proof (cases ms)
  case Nil
  with assms(1) show ?thesis by (simp add: Cons_nth_drop_Suc)
next
  case (Cons m ms')
  with assms(2) have le: "Suc li \<le> index m" by simp
  then have "index m - li = Suc (index m - Suc li)" by simp
  moreover have "drop li s = s ! li # drop (Suc li) s" using assms(1) by (simp add: Cons_nth_drop_Suc)
  ultimately have "take (index m - li) (drop li s) = s ! li # take (index m - Suc li) (drop (Suc li) s)"
    by simp
  with le Cons show ?thesis by simp
qed

lemma scan_unfold:
  assumes "plain r" and "li \<le> length s"
  shows "splice s repl li (matches_g r s li) =
     (case match_at r False (drop li s) of
        Some (n, c) \<Rightarrow> repl @ splice s repl (li + n) (matches_g r s (li + n))
      | None \<Rightarrow> (if li < length s then s ! li # splice s repl (Suc li) (matches_g r s (Suc li)) else []))"
proof (cases "match_at r False (drop li s)")
  case (Some m)
  obtain n c where m: "m = (n, c)" by (cases m)
  from plain_len [OF assms(1) Some [unfolded m]] have n: "0 < n" by simp
  from exec_here [OF assms Some [unfolded m]] n
  have "matches_g r s li = \<lparr>index = li, mlen = n, groups = c\<rparr> # matches_g r s (li + n)"
    by (subst matches_g.simps) simp
  with Some m show ?thesis by simp
next
  case None
  show ?thesis
  proof (cases "li < length s")
    case True
    from exec_skip [OF assms(1) True None]
    have "matches_g r s li = matches_g r s (Suc li)"
      by (subst matches_g.simps, subst (2) matches_g.simps) simp
    moreover have "\<forall>m\<in>set (matches_g r s (Suc li)). Suc li \<le> index m"
      using matches_g_index_ge by blast
    ultimately show ?thesis using splice_step [OF True] None True by simp
  next
    case False
    with assms(2) have "li = length s" by simp
    with exec_end [OF assms(1), of s] have "matches_g r s li = []"
      by (subst matches_g.simps) simp
    with None False show ?thesis by simp
  qed
qed

lemma scan_shift:
  assumes "plain r"
  shows "li \<le> length s \<Longrightarrow>
     splice s repl li (matches_g r s li) = splice (drop li s) repl 0 (matches_g r (drop li s) 0)"
proof (induction "length s - li" arbitrary: s li rule: less_induct)
  case less
  let ?t = "drop li s"
  note L = scan_unfold [OF assms less.prems, of repl]
  note R = scan_unfold [OF assms, of 0 ?t repl, simplified]
  show ?case
  proof (cases "match_at r False ?t")
    case (Some m)
    obtain n c where m: "m = (n, c)" by (cases m)
    from plain_len [OF assms Some [unfolded m]] have n: "0 < n" "n \<le> length ?t" by simp_all
    have 1: "splice s repl (li + n) (matches_g r s (li + n))
        = splice (drop (li + n) s) repl 0 (matches_g r (drop (li + n) s) 0)"
      using n less.prems by (intro less.hyps) auto
    have 2: "splice ?t repl n (matches_g r ?t n)
        = splice (drop n ?t) repl 0 (matches_g r (drop n ?t) 0)"
      using n less.prems by (intro less.hyps) auto
    have "drop n ?t = drop (li + n) s" by (simp add: add.commute)
    with L R Some m 1 2 show ?thesis by simp
  next
    case None
    show ?thesis
    proof (cases "li < length s")
      case True
      have 1: "splice s repl (Suc li) (matches_g r s (Suc li))
          = splice (drop (Suc li) s) repl 0 (matches_g r (drop (Suc li) s) 0)"
        using True by (intro less.hyps) auto
      have 2: "splice ?t repl (Suc 0) (matches_g r ?t (Suc 0))
          = splice (drop (Suc 0) ?t) repl 0 (matches_g r (drop (Suc 0) ?t) 0)"
        using True by (intro less.hyps) auto
      have "drop (Suc 0) ?t = drop (Suc li) s" by simp
      moreover have "?t ! 0 = s ! li" using True by simp
      ultimately show ?thesis using L R None True 1 2 by simp
    next
      case False
      with L R None show ?thesis by simp
    qed
  qed
qed

lemma replace_g_Nil: "plain r \<Longrightarrow> replace_g r repl [] = []"
  using scan_unfold [of r 0 "[]" repl] plain_Nil [of r False] by (simp add: replace_g_def)

lemma replace_g_Cons:
  assumes "plain r"
  shows "replace_g r repl (x # xs) =
     (case match_at r False (x # xs) of
        Some (n, c) \<Rightarrow> repl @ replace_g r repl (drop n (x # xs))
      | None \<Rightarrow> x # replace_g r repl xs)"
proof (cases "match_at r False (x # xs)")
  case (Some m)
  obtain n c where m: "m = (n, c)" by (cases m)
  from plain_len [OF assms Some [unfolded m]] have n: "n \<le> length (x # xs)" by simp
  from scan_shift [OF assms n, of repl] scan_unfold [OF assms, of 0 "x # xs" repl] Some m
  show ?thesis by (simp add: replace_g_def)
next
  case None
  from scan_shift [OF assms, of "Suc 0" "x # xs" repl] scan_unfold [OF assms, of 0 "x # xs" repl] None
  show ?thesis by (simp add: replace_g_def)
qed

subsection \<open>Line breaks\<close>

lemma lead_simps [simp]:
  "lead [] = 0" "lead (x # xs) = (if x = LF then Suc (lead xs) else 0)"
  by (simp_all add: lead_def)

lemma lead_le: "lead s \<le> length s"
  by (simp add: lead_def length_takeWhile_le)

lemma lead_drop: "lead (drop (lead s) s) = 0"
  by (induction s) auto

lemma match_lineBreaks:
  "match_at lineBreaksRegex b s = (if 3 \<le> lead s then Some (lead s, []) else None)"
proof (cases "3 \<le> lead s")
  case True
  then have "[3 ..< Suc (lead s)] = [3 ..< lead s] @ [lead s]" by simp
  with True show ?thesis
    by (simp add: match_at_def lineBreaksRegex_def rep_count_def lead_def)
next
  case False
  then show ?thesis
    by (simp add: match_at_def lineBreaksRegex_def rep_count_def lead_def)
qed

lemma plain_lineBreaks: "plain lineBreaksRegex"
  using lead_le by (auto simp: plain_def match_lineBreaks)

lemma handleLineBreaks_Nil: "handleLineBreaks [] = []"
  by (simp add: handleLineBreaks_def replace_g_Nil [OF plain_lineBreaks])

lemma handleLineBreaks_Cons:
  "handleLineBreaks (x # xs) =
     (if 3 \<le> lead (x # xs) then [LF, LF] @ handleLineBreaks (drop (lead (x # xs)) (x # xs))
      else x # handleLineBreaks xs)"
  unfolding handleLineBreaks_def
  by (subst replace_g_Cons [OF plain_lineBreaks]) (simp add: match_lineBreaks)

lemma lead_handleLineBreaks: "lead (handleLineBreaks s) = min (lead s) 2"
proof (induction "length s" arbitrary: s rule: less_induct)
  case less
  show ?case
  proof (cases s)
    case Nil
    then show ?thesis by (simp add: handleLineBreaks_Nil)
  next
    case (Cons x xs)
    show ?thesis
    proof (cases "3 \<le> lead s")
      case True
      let ?t = "drop (lead s) s"
      have "length ?t < length s" using True lead_le [of s] by simp
      from less.hyps [OF this] have "lead (handleLineBreaks ?t) = 0" by (simp add: lead_drop)
      with True Cons handleLineBreaks_Cons [of x xs] show ?thesis by simp
    next
      case False
      have "lead (handleLineBreaks xs) = min (lead xs) 2" using Cons by (intro less.hyps) simp
      with False Cons handleLineBreaks_Cons [of x xs] show ?thesis by (auto split: if_splits)
    qed
  qed
qed

lemma handleLineBreaks_idem: "handleLineBreaks (handleLineBreaks s) = handleLineBreaks s"
proof (induction "length s" arbitrary: s rule: less_induct)
  case less
  show ?case
  proof (cases s)
    case Nil
    then show ?thesis by (simp add: handleLineBreaks_Nil)
  next
    case (Cons x xs)
    show ?thesis
    proof (cases "3 \<le> lead s")
      case True
      let ?t = "drop (lead s) s"
      have lt: "length ?t < length s" using True lead_le [of s] by simp
      have h: "handleLineBreaks s = LF # LF # handleLineBreaks ?t"
        using True Cons handleLineBreaks_Cons [of x xs] by simp
      have l0: "lead (handleLineBreaks ?t) = 0"
        using lead_handleLineBreaks [of ?t] by (simp add: lead_drop)
      have "handleLineBreaks (LF # LF # handleLineBreaks ?t)
          = LF # handleLineBreaks (LF # handleLineBreaks ?t)"
        using l0 by (subst handleLineBreaks_Cons) simp
      also have "handleLineBreaks (LF # handleLineBreaks ?t) = LF # handleLineBreaks (handleLineBreaks ?t)"
        using l0 by (subst handleLineBreaks_Cons) simp
      also have "handleLineBreaks (handleLineBreaks ?t) = handleLineBreaks ?t"
        using lt by (rule less.hyps)
      finally show ?thesis using h by simp
    next
      case False
      have h: "handleLineBreaks s = x # handleLineBreaks xs"
        using False Cons handleLineBreaks_Cons [of x xs] by simp
      have "lead (x # handleLineBreaks xs) = min (lead s) 2"
        using lead_handleLineBreaks [of s] h by simp
      with False have "\<not> 3 \<le> lead (x # handleLineBreaks xs)" by simp
      then have "handleLineBreaks (x # handleLineBreaks xs) = x # handleLineBreaks (handleLineBreaks xs)"
        by (subst handleLineBreaks_Cons) simp
      moreover have "handleLineBreaks (handleLineBreaks xs) = handleLineBreaks xs"
        using Cons by (intro less.hyps) simp
      ultimately show ?thesis using h by simp
    qed
  qed
qed

subsection \<open>What a pattern accepts\<close>

lemma ends_flag: "anchor_free r \<Longrightarrow> ends r b s = ends r False s"
proof (induction r arbitrary: b s)
  case (Seq r1 r2)
  have 1: "ends r1 b s = ends r1 False s" using Seq by simp
  have 2: "ends r2 (b \<and> n = 0) t = ends r2 False t" for n t using Seq by simp
  show ?case by (simp add: 1 2)
next
  case (Alt r1 r2)
  have "ends r1 b s = ends r1 False s" "ends r2 b s = ends r2 False s" using Alt by simp_all
  then show ?case by simp
next
  case (Grp g r)
  have "ends r b s = ends r False s" using Grp by simp
  then show ?case by simp
qed simp_all

lemma rep_count_le: "rep_count mx p s \<le> length s"
proof -
  have "length (takeWhile p s) \<le> length s" by (rule length_takeWhile_le)
  then show ?thesis by (cases mx) (simp_all add: rep_count_def Let_def)
qed

lemma ends_le: "(n, c) \<in> set (ends r b s) \<Longrightarrow> n \<le> length s"
proof (induction r arbitrary: b s n c)
  case (Lit l)
  then have "take (length l) s = l" "n = length l" by (auto split: if_splits)
  then show ?case by (metis length_take min.cobounded1)
next
  case (Rep mn mx p)
  then have "n \<le> rep_count mx p s" by (auto simp del: upt_Suc)
  with rep_count_le [of mx p s] show ?case by simp
next
  case (Seq r1 r2)
  from Seq.prems obtain n1 c1 n2 c2 where a: "(n1, c1) \<in> set (ends r1 b s)"
    and b: "(n2, c2) \<in> set (ends r2 (b \<and> n1 = 0) (drop n1 s))" and n: "n = n1 + n2"
    by auto
  from Seq.IH(1) [OF a] Seq.IH(2) [OF b] n show ?case by simp
next
  case (Alt r1 r2)
  then show ?case by auto
next
  case (Grp g r)
  then show ?case by auto
next
  case Bol
  then show ?case by (auto split: if_splits)
next
  case Eos
  then show ?case by (auto split: if_splits)
qed

lemma match_at_Some_iff: "match_at r b s = Some m \<Longrightarrow> m \<in> set (ends r b s)"
  by (auto simp: match_at_def split: list.splits)

lemma match_at_None_iff: "match_at r b s = None \<longleftrightarrow> ends r b s = []"
  by (auto simp: match_at_def split: list.splits)

lemma match_at_acc: "anchor_free r \<Longrightarrow> match_at r b s \<noteq> None \<longleftrightarrow> accepts r s"
  using ends_flag [of r b s] by (simp add: match_at_None_iff accepts_def)

lemma ends_Lit_Seq_ge: "(n, c) \<in> set (ends (Seq (Lit l) R) b s) \<Longrightarrow> length l \<le> n"
  by (auto split: if_splits)

lemma plainI:
  assumes "anchor_free r" and "\<And>n c b s. (n, c) \<in> set (ends r b s) \<Longrightarrow> 0 < n"
  shows "plain r"
  unfolding plain_def
proof (intro allI conjI impI)
  fix b s
  show "match_at r b s = match_at r False s" using ends_flag [OF assms(1), of b s] by (simp add: match_at_def)
next
  fix b s n c
  assume "match_at r False s = Some (n, c)"
  from match_at_Some_iff [OF this] show "0 < n" by (rule assms(2))
next
  fix b s n c
  assume "match_at r False s = Some (n, c)"
  from match_at_Some_iff [OF this] show "n \<le> length s" by (rule ends_le)
qed

lemma acc_Lit: "accepts (Lit l) s \<longleftrightarrow> (\<exists>q. s = l @ q)"
proof -
  have "take (length l) s = l \<longleftrightarrow> (\<exists>q. s = l @ q)"
    by (metis append_eq_conv_conj append_take_drop_id)
  then show ?thesis by (simp add: accepts_def)
qed

lemma acc_Seq: "accepts (Seq r1 r2) s \<longleftrightarrow> (\<exists>n c. (n, c) \<in> set (ends r1 False s) \<and> accepts r2 (drop n s))"
proof
  assume "accepts (Seq r1 r2) s"
  then obtain m where m: "m \<in> set (ends r1 False s)"
    and ne: "(case m of (n1, c1) \<Rightarrow> map (\<lambda>(n2, c2). (n1 + n2, c1 @ c2)) (ends r2 False (drop n1 s))) \<noteq> []"
    by (auto simp: accepts_def)
  obtain n c where "m = (n, c)" by (cases m)
  with m ne show "\<exists>n c. (n, c) \<in> set (ends r1 False s) \<and> accepts r2 (drop n s)"
    by (auto simp: accepts_def)
next
  assume "\<exists>n c. (n, c) \<in> set (ends r1 False s) \<and> accepts r2 (drop n s)"
  then obtain n c where m: "(n, c) \<in> set (ends r1 False s)" and a: "ends r2 False (drop n s) \<noteq> []"
    by (auto simp: accepts_def)
  have "(case (n, c) of (n1, c1) \<Rightarrow> map (\<lambda>(n2, c2). (n1 + n2, c1 @ c2)) (ends r2 False (drop n1 s))) \<noteq> []"
    using a by simp
  with m have "\<exists>m\<in>set (ends r1 False s).
      (case m of (n1, c1) \<Rightarrow> map (\<lambda>(n2, c2). (n1 + n2, c1 @ c2)) (ends r2 False (drop n1 s))) \<noteq> []"
    by blast
  then show "accepts (Seq r1 r2) s" by (simp add: accepts_def)
qed

lemma set_ends_Rep:
  "(n, c) \<in> set (ends (Rep mn mx p) b s) \<longleftrightarrow> c = [] \<and> mn \<le> n \<and> n \<le> rep_count mx p s"
  by (auto simp del: upt_Suc)

lemma acc_Lit_Seq: "accepts (Seq (Lit l) R) s \<longleftrightarrow> (\<exists>q. s = l @ q \<and> accepts R q)"
proof -
  have "accepts (Seq (Lit l) R) s \<longleftrightarrow> take (length l) s = l \<and> accepts R (drop (length l) s)"
    by (auto simp: acc_Seq split: if_splits)
  also have "\<dots> \<longleftrightarrow> (\<exists>q. s = l @ q \<and> accepts R q)"
    by (metis append_eq_conv_conj append_take_drop_id)
  finally show ?thesis .
qed

lemma acc_Rep_Seq:
  "accepts (Seq (Rep mn mx p) R) s \<longleftrightarrow> (\<exists>n. mn \<le> n \<and> n \<le> rep_count mx p s \<and> accepts R (drop n s))"
  unfolding acc_Seq set_ends_Rep by blast

lemma acc_Opt_Seq:
  "accepts (Seq (Opt p) R) s \<longleftrightarrow> accepts R s \<or> (\<exists>x q. s = x # q \<and> p x \<and> accepts R q)"
proof (cases s)
  case Nil
  then show ?thesis by (simp add: acc_Rep_Seq rep_count_def)
next
  case (Cons x q)
  have "rep_count (Some 1) p s = (if p x then 1 else 0)" using Cons by (simp add: rep_count_def)
  moreover have "(\<exists>n. n \<le> (1::nat) \<and> P n) \<longleftrightarrow> P 0 \<or> P 1" for P
    by (metis le_0_eq le_Suc_eq One_nat_def le_refl zero_le)
  ultimately show ?thesis using Cons by (auto simp: acc_Rep_Seq)
qed

lemma acc_Star_Seq_Nil: "accepts (Seq (Star p) R) [] \<longleftrightarrow> accepts R []"
  by (simp add: acc_Rep_Seq rep_count_def)

lemma acc_Star_Seq_Cons:
  "accepts (Seq (Star p) R) (x # xs) \<longleftrightarrow> accepts R (x # xs) \<or> (p x \<and> accepts (Seq (Star p) R) xs)"
proof
  assume "accepts (Seq (Star p) R) (x # xs)"
  then obtain n where n: "n \<le> length (takeWhile p (x # xs))" and a: "accepts R (drop n (x # xs))"
    by (auto simp: acc_Rep_Seq rep_count_def)
  show "accepts R (x # xs) \<or> (p x \<and> accepts (Seq (Star p) R) xs)"
  proof (cases n)
    case 0
    with a show ?thesis by simp
  next
    case (Suc m)
    with n have px: "p x" by (auto split: if_splits)
    with n Suc have "m \<le> length (takeWhile p xs)" by simp
    with a Suc px show ?thesis by (auto simp: acc_Rep_Seq rep_count_def)
  qed
next
  assume "accepts R (x # xs) \<or> (p x \<and> accepts (Seq (Star p) R) xs)"
  then show "accepts (Seq (Star p) R) (x # xs)"
  proof
    assume "accepts R (x # xs)"
    then have "0 \<le> rep_count None p (x # xs) \<and> accepts R (drop 0 (x # xs))" by simp
    then show ?thesis unfolding acc_Rep_Seq by blast
  next
    assume "p x \<and> accepts (Seq (Star p) R) xs"
    then obtain m where px: "p x" and m: "m \<le> length (takeWhile p xs)" and a: "accepts R (drop m xs)"
      by (auto simp: acc_Rep_Seq rep_count_def)
    then have "Suc m \<le> rep_count None p (x # xs) \<and> accepts R (drop (Suc m) (x # xs))"
      by (simp add: rep_count_def)
    then show ?thesis unfolding acc_Rep_Seq by blast
  qed
qed

subsection \<open>The code-block patterns\<close>

lemma highlightRegex_eq:
  "highlightRegex = Seq (Lit ''{%'') (Seq (Opt is_space) (Seq (Lit ''highlight'') tail_re))"
  by (simp add: highlightRegex_def tail_re_def)

lemma endhighlightRegex_eq:
  "endhighlightRegex = Seq (Lit ''{%'') (Seq (Opt is_space) (Seq (Lit ''endhighlight'')
     (Seq (Opt is_space) (Lit ''%}''))))"
  by (simp add: endhighlightRegex_def)

lemma acc_close: "accepts (Lit ''%}'') t \<longleftrightarrow> take 2 t = ''%}''"
  by (simp add: accepts_def numeral_2_eq_2)

lemma dot_simps [simp]: "dot CHR '' ''" "dot CHR ''%''" "dot CHR ''}''" "dot CHR ''{''"
  by (simp_all add: dot_def)

lemma closes_start: "take 2 t = ''%}'' \<Longrightarrow> closes t"
  by (cases t) simp_all

lemma closes_Cons: "dot x \<Longrightarrow> closes t \<Longrightarrow> closes (x # t)"
  by simp

lemma closes_append: "\<forall>c\<in>set P. dot c \<Longrightarrow> closes t \<Longrightarrow> closes (P @ t)"
  by (induction P) simp_all

lemma acc_star_close:
  "accepts (Seq (Star dot) (Seq (Opt is_space) (Lit ''%}''))) q \<longleftrightarrow> closes q"
proof (induction q)
  case Nil
  show ?case by (simp only: acc_Star_Seq_Nil acc_Opt_Seq acc_close) simp
next
  case (Cons x xs)
  have "accepts (Seq (Opt is_space) (Lit ''%}'')) (x # xs)
      \<longleftrightarrow> take 2 (x # xs) = ''%}'' \<or> (x = CHR '' '' \<and> take 2 xs = ''%}'')"
    by (simp only: acc_Opt_Seq acc_close) blast
  moreover have "closes xs" if "take 2 xs = ''%}''" using that by (rule closes_start)
  ultimately show ?case
    unfolding acc_Star_Seq_Cons Cons.IH closes.simps by auto
qed

lemma acc_tail: "accepts tail_re q \<longleftrightarrow> closes q"
proof -
  have "accepts tail_re q \<longleftrightarrow> closes q \<or> (\<exists>x q'. q = x # q' \<and> x = CHR '' '' \<and> closes q')"
    unfolding tail_re_def acc_Opt_Seq [of is_space] acc_star_close ..
  then show ?thesis by auto
qed

lemma acc_highlight:
  "accepts highlightRegex s \<longleftrightarrow> (\<exists>q. (s = ''{%highlight'' @ q \<or> s = ''{% highlight'' @ q) \<and> closes q)"
proof -
  have "accepts highlightRegex s \<longleftrightarrow>
      (\<exists>q1. s = ''{%'' @ q1 \<and>
         ((\<exists>q. q1 = ''highlight'' @ q \<and> closes q)
          \<or> (\<exists>x q2. q1 = x # q2 \<and> x = CHR '' '' \<and> (\<exists>q. q2 = ''highlight'' @ q \<and> closes q))))"
    unfolding highlightRegex_eq acc_Lit_Seq acc_Opt_Seq [of is_space] acc_tail ..
  also have "\<dots> \<longleftrightarrow> (\<exists>q. (s = ''{%'' @ ''highlight'' @ q \<or> s = ''{%'' @ CHR '' '' # ''highlight'' @ q) \<and> closes q)"
    by blast
  finally show ?thesis by simp
qed

lemma acc_endhighlight:
  "accepts endhighlightRegex s \<longleftrightarrow>
     (\<exists>q. s = ''{%endhighlight%}'' @ q \<or> s = ''{%endhighlight %}'' @ q
         \<or> s = ''{% endhighlight%}'' @ q \<or> s = ''{% endhighlight %}'' @ q)"
proof -
  define B where "B t \<longleftrightarrow> (\<exists>q. t = ''%}'' @ q) \<or> (\<exists>x q2. t = x # q2 \<and> x = CHR '' '' \<and> (\<exists>q. q2 = ''%}'' @ q))" for t
  have B: "B t \<longleftrightarrow> (\<exists>q. t = ''%}'' @ q \<or> t = CHR '' '' # ''%}'' @ q)" for t
    unfolding B_def by blast
  have "accepts endhighlightRegex s \<longleftrightarrow>
      (\<exists>q1. s = ''{%'' @ q1 \<and>
         ((\<exists>q. q1 = ''endhighlight'' @ q \<and> B q)
          \<or> (\<exists>x q2. q1 = x # q2 \<and> x = CHR '' '' \<and> (\<exists>q. q2 = ''endhighlight'' @ q \<and> B q))))"
    unfolding endhighlightRegex_eq acc_Lit_Seq acc_Opt_Seq [of is_space] acc_Lit B_def ..
  also have "\<dots> \<longleftrightarrow> (\<exists>t. (s = ''{%'' @ ''endhighlight'' @ t \<or> s = ''{%'' @ CHR '' '' # ''endhighlight'' @ t) \<and> B t)"
    by blast
  also have "\<dots> \<longleftrightarrow> (\<exists>q. s = ''{%'' @ ''endhighlight'' @ ''%}'' @ q
        \<or> s = ''{%'' @ ''endhighlight'' @ CHR '' '' # ''%}'' @ q
        \<or> s = ''{%'' @ CHR '' '' # ''endhighlight'' @ ''%}'' @ q
        \<or> s = ''{%'' @ CHR '' '' # ''endhighlight'' @ CHR '' '' # ''%}'' @ q)"
    unfolding B by blast
  finally show ?thesis by simp
qed

lemma anchor_free_highlight: "anchor_free highlightRegex" "anchor_free endhighlightRegex"
  by (simp_all add: highlightRegex_eq endhighlightRegex_eq tail_re_def)

lemma plain_highlight: "plain highlightRegex"
proof (rule plainI)
  show "anchor_free highlightRegex" by (rule anchor_free_highlight)
  fix n c b s
  assume "(n, c) \<in> set (ends highlightRegex b s)"
  then have "length ''{%'' \<le> n" unfolding highlightRegex_eq by (rule ends_Lit_Seq_ge)
  then show "0 < n" by simp
qed

lemma plain_endhighlight: "plain endhighlightRegex"
proof (rule plainI)
  show "anchor_free endhighlightRegex" by (rule anchor_free_highlight)
  fix n c b s
  assume "(n, c) \<in> set (ends endhighlightRegex b s)"
  then have "length ''{%'' \<le> n" unfolding endhighlightRegex_eq by (rule ends_Lit_Seq_ge)
  then show "0 < n" by simp
qed

lemma highlight_brace: "accepts highlightRegex (c # t) \<Longrightarrow> c = CHR ''{''"
  unfolding acc_highlight by auto

lemma endhighlight_brace: "accepts endhighlightRegex (c # t) \<Longrightarrow> c = CHR ''{''"
  unfolding acc_endhighlight by auto

lemma closes_literal: "\<forall>c\<in>set P. dot c \<Longrightarrow> closes t \<Longrightarrow> s = P @ t \<Longrightarrow> closes s"
  using closes_append by simp

lemma highlight_closes:
  assumes "accepts highlightRegex s"
  shows "closes s"
proof -
  from assms [unfolded acc_highlight] obtain q
    where d: "s = ''{%highlight'' @ q \<or> s = ''{% highlight'' @ q" and c: "closes q"
    by (elim exE conjE)
  from d show ?thesis
  proof (elim disjE)
    assume e: "s = ''{%highlight'' @ q"
    show ?thesis by (rule closes_literal [of "''{%highlight''" q, OF _ c e]) (simp add: dot_def)
  next
    assume e: "s = ''{% highlight'' @ q"
    show ?thesis by (rule closes_literal [of "''{% highlight''" q, OF _ c e]) (simp add: dot_def)
  qed
qed

lemma endhighlight_closes:
  assumes "accepts endhighlightRegex s"
  shows "closes s"
proof -
  from assms [unfolded acc_endhighlight] obtain q
    where d: "s = ''{%endhighlight%}'' @ q \<or> s = ''{%endhighlight %}'' @ q
         \<or> s = ''{% endhighlight%}'' @ q \<or> s = ''{% endhighlight %}'' @ q"
    by (elim exE)
  have c: "closes (''%}'' @ q)" by simp
  from d show ?thesis
  proof (elim disjE)
    assume "s = ''{%endhighlight%}'' @ q"
    then have e: "s = ''{%endhighlight'' @ ''%}'' @ q" by simp
    show ?thesis by (rule closes_literal [OF _ c e]) (simp add: dot_def)
  next
    assume "s = ''{%endhighlight %}'' @ q"
    then have e: "s = ''{%endhighlight '' @ ''%}'' @ q" by simp
    show ?thesis by (rule closes_literal [OF _ c e]) (simp add: dot_def)
  next
    assume "s = ''{% endhighlight%}'' @ q"
    then have e: "s = ''{% endhighlight'' @ ''%}'' @ q" by simp
    show ?thesis by (rule closes_literal [OF _ c e]) (simp add: dot_def)
  next
    assume "s = ''{% endhighlight %}'' @ q"
    then have e: "s = ''{% endhighlight '' @ ''%}'' @ q" by simp
    show ?thesis by (rule closes_literal [OF _ c e]) (simp add: dot_def)
  qed
qed

subsection \<open>Texts without a match\<close>

text \<open>
  A replacement by the fence leaves no match of the pattern behind: a match starts
  with a brace, so it cannot start inside a fence, and a match in the result would
  come from a match in the text that was replaced.
\<close>

lemma match_at_None_acc: "match_at r False s = None \<longleftrightarrow> \<not> accepts r s"
  by (simp add: match_at_None_iff accepts_def)

lemma replace_skip:
  assumes "plain r" and "\<not> accepts r (x # xs)"
  shows "replace_g r repl (x # xs) = x # replace_g r repl xs"
  using assms(2) by (subst replace_g_Cons [OF assms(1)]) (simp add: match_at_None_acc [symmetric])

lemma replace_hit:
  assumes "plain r" and "accepts r (x # xs)"
  obtains n where "0 < n" and "n \<le> length (x # xs)"
    and "replace_g r repl (x # xs) = repl @ replace_g r repl (drop n (x # xs))"
proof -
  from assms(2) obtain m where m: "match_at r False (x # xs) = Some m"
    using match_at_None_acc [of r "x # xs"] by auto
  obtain n c where nc: "m = (n, c)" by (cases m)
  from plain_len [OF assms(1) m [unfolded nc]] have "0 < n" "n \<le> length (x # xs)" by simp_all
  moreover have "replace_g r repl (x # xs) = repl @ replace_g r repl (drop n (x # xs))"
    using m nc by (subst replace_g_Cons [OF assms(1)]) simp
  ultimately show ?thesis using that by blast
qed

lemma clean_fix: "plain r \<Longrightarrow> clean r t \<Longrightarrow> replace_g r repl t = t"
proof (induction t)
  case Nil
  then show ?case by (simp add: replace_g_Nil)
next
  case (Cons x xs)
  then show ?case by (simp add: replace_skip)
qed

lemma clean_drop: "clean r t \<Longrightarrow> clean r (drop n t)"
proof (induction t arbitrary: n)
  case Nil
  then show ?case by simp
next
  case (Cons x xs)
  then show ?case by (cases n) simp_all
qed

lemma clean_fence:
  assumes "\<And>c t. accepts r (c # t) \<Longrightarrow> c = CHR ''{''" and "clean r t"
  shows "clean r (fence @ t)"
  using assms by auto

lemma keeps_prefix:
  assumes "plain r"
  shows "replace_g r fence s = P @ q' \<Longrightarrow> BQ \<notin> set P \<Longrightarrow> \<exists>q. s = P @ q \<and> q' = replace_g r fence q"
proof (induction P arbitrary: s q')
  case Nil
  then show ?case by simp
next
  case (Cons p P)
  show ?case
  proof (cases s)
    case Nil
    with Cons.prems(1) show ?thesis by (simp add: replace_g_Nil [OF assms])
  next
    case s: (Cons x xs)
    show ?thesis
    proof (cases "accepts r (x # xs)")
      case True
      from replace_hit [OF assms True, of fence] obtain n
        where "replace_g r fence (x # xs) = fence @ replace_g r fence (drop n (x # xs))" by blast
      with Cons.prems s have "p = BQ" by simp
      with Cons.prems(2) show ?thesis by simp
    next
      case False
      from replace_skip [OF assms False, of fence] Cons.prems(1) s
      have x: "x = p" and e: "replace_g r fence xs = P @ q'" by simp_all
      from Cons.IH [OF e] Cons.prems(2) obtain q where "xs = P @ q" "q' = replace_g r fence q" by auto
      with x s show ?thesis by simp
    qed
  qed
qed

lemma closes_back:
  assumes "plain r" and cl: "\<And>t. accepts r t \<Longrightarrow> closes t"
  shows "closes (replace_g r fence s) \<Longrightarrow> closes s"
proof (induction "length s" arbitrary: s rule: less_induct)
  case less
  show ?case
  proof (cases s)
    case Nil
    with less.prems show ?thesis by (simp add: replace_g_Nil [OF assms(1)])
  next
    case s: (Cons x xs)
    show ?thesis
    proof (cases "accepts r (x # xs)")
      case True
      from cl [OF True] s show ?thesis by (simp only:)
    next
      case False
      from replace_skip [OF assms(1) False, of fence] less.prems s
      have c: "take 2 (x # replace_g r fence xs) = ''%}'' \<or> (dot x \<and> closes (replace_g r fence xs))"
        by simp
      then show ?thesis
      proof
        assume "dot x \<and> closes (replace_g r fence xs)"
        moreover have "closes (replace_g r fence xs) \<Longrightarrow> closes xs"
          using s less.hyps [of xs] by simp
        ultimately show ?thesis using s by simp
      next
        assume t: "take 2 (x # replace_g r fence xs) = ''%}''"
        then have x: "x = CHR ''%''" by (simp add: numeral_2_eq_2)
        from t have "take 1 (replace_g r fence xs) = ''}''" by (simp add: numeral_2_eq_2)
        then obtain q' where "replace_g r fence xs = ''}'' @ q'"
          by (cases "replace_g r fence xs") simp_all
        from keeps_prefix [OF assms(1) this] obtain q where "xs = ''}'' @ q" by auto
        with x s show ?thesis by simp
      qed
    qed
  qed
qed

lemma highlight_back:
  assumes "plain r" and "\<And>t. accepts r t \<Longrightarrow> closes t" and "accepts highlightRegex (replace_g r fence s)"
  shows "accepts highlightRegex s"
proof -
  from assms(3) [unfolded acc_highlight] obtain q'
    where d: "replace_g r fence s = ''{%highlight'' @ q' \<or> replace_g r fence s = ''{% highlight'' @ q'"
      and c: "closes q'"
    by (elim exE conjE)
  from d show ?thesis
  proof (elim disjE)
    assume e: "replace_g r fence s = ''{%highlight'' @ q'"
    have "BQ \<notin> set ''{%highlight''" by simp
    from keeps_prefix [OF assms(1) e this] obtain q
      where s: "s = ''{%highlight'' @ q" and q': "q' = replace_g r fence q" by blast
    from closes_back [OF assms(1,2)] c q' have "closes q" by simp
    with s show ?thesis unfolding acc_highlight by (intro exI [of _ q]) simp
  next
    assume e: "replace_g r fence s = ''{% highlight'' @ q'"
    have "BQ \<notin> set ''{% highlight''" by simp
    from keeps_prefix [OF assms(1) e this] obtain q
      where s: "s = ''{% highlight'' @ q" and q': "q' = replace_g r fence q" by blast
    from closes_back [OF assms(1,2)] c q' have "closes q" by simp
    with s show ?thesis unfolding acc_highlight by (intro exI [of _ q]) simp
  qed
qed

lemma endhighlight_back:
  assumes "plain r" and "accepts endhighlightRegex (replace_g r fence s)"
  shows "accepts endhighlightRegex s"
proof -
  let ?g = "replace_g r fence s"
  from assms(2) [unfolded acc_endhighlight] obtain q'
    where d: "?g = ''{%endhighlight%}'' @ q' \<or> ?g = ''{%endhighlight %}'' @ q'
         \<or> ?g = ''{% endhighlight%}'' @ q' \<or> ?g = ''{% endhighlight %}'' @ q'"
    by (elim exE)
  have k: "\<exists>q. s = P @ q" if "?g = P @ q'" "BQ \<notin> set P" for P
    using keeps_prefix [OF assms(1) that] by blast
  from d show ?thesis
  proof (elim disjE)
    assume "?g = ''{%endhighlight%}'' @ q'"
    from k [OF this] obtain q where "s = ''{%endhighlight%}'' @ q" by auto
    then show ?thesis unfolding acc_endhighlight by (intro exI [of _ q]) simp
  next
    assume "?g = ''{%endhighlight %}'' @ q'"
    from k [OF this] obtain q where "s = ''{%endhighlight %}'' @ q" by auto
    then show ?thesis unfolding acc_endhighlight by (intro exI [of _ q]) simp
  next
    assume "?g = ''{% endhighlight%}'' @ q'"
    from k [OF this] obtain q where "s = ''{% endhighlight%}'' @ q" by auto
    then show ?thesis unfolding acc_endhighlight by (intro exI [of _ q]) simp
  next
    assume "?g = ''{% endhighlight %}'' @ q'"
    from k [OF this] obtain q where "s = ''{% endhighlight %}'' @ q" by auto
    then show ?thesis unfolding acc_endhighlight by (intro exI [of _ q]) simp
  qed
qed

lemma clean_replace:
  assumes "plain r" and brace: "\<And>c t. accepts rm (c # t) \<Longrightarrow> c = CHR ''{''"
    and bk: "\<And>s. accepts rm (replace_g r fence s) \<Longrightarrow> accepts rm s"
    and pre: "\<And>x xs. \<not> accepts r (x # xs) \<Longrightarrow> P (x # xs) \<Longrightarrow> \<not> accepts rm (x # xs)"
    and sub: "\<And>t n. P t \<Longrightarrow> P (drop n t)"
  shows "P t \<Longrightarrow> clean rm (replace_g r fence t)"
proof (induction "length t" arbitrary: t rule: less_induct)
  case less
  show ?case
  proof (cases t)
    case Nil
    then show ?thesis by (simp add: replace_g_Nil [OF assms(1)])
  next
    case t: (Cons x xs)
    show ?thesis
    proof (cases "accepts r (x # xs)")
      case True
      from replace_hit [OF assms(1) True, of fence] obtain n where n: "0 < n" "n \<le> length (x # xs)"
        and e: "replace_g r fence (x # xs) = fence @ replace_g r fence (drop n (x # xs))" by blast
      have "clean rm (replace_g r fence (drop n (x # xs)))"
        using n t sub [OF less.prems, of n] by (intro less.hyps) simp_all
      from clean_fence [of rm, OF brace this] e t show ?thesis by simp
    next
      case False
      have e: "replace_g r fence (x # xs) = x # replace_g r fence xs"
        using False by (rule replace_skip [OF assms(1)])
      have "\<not> accepts rm (x # xs)" using pre [OF False] less.prems t by simp
      with bk [of "x # xs"] e have "\<not> accepts rm (x # replace_g r fence xs)" by auto
      moreover have "clean rm (replace_g r fence xs)"
        using t sub [OF less.prems, of 1] by (intro less.hyps) simp_all
      ultimately show ?thesis using e t by simp
    qed
  qed
qed

lemma clean_highlight: "clean highlightRegex (replace_g highlightRegex fence t)"
proof (rule clean_replace [where P = "\<lambda>t. True", OF plain_highlight])
  show "\<And>c t. accepts highlightRegex (c # t) \<Longrightarrow> c = CHR ''{''" by (rule highlight_brace)
  show "\<And>s. accepts highlightRegex (replace_g highlightRegex fence s) \<Longrightarrow> accepts highlightRegex s"
    by (rule highlight_back [OF plain_highlight highlight_closes])
qed simp_all

lemma clean_endhighlight: "clean endhighlightRegex (replace_g endhighlightRegex fence t)"
proof (rule clean_replace [where P = "\<lambda>t. True", OF plain_endhighlight])
  show "\<And>c t. accepts endhighlightRegex (c # t) \<Longrightarrow> c = CHR ''{''" by (rule endhighlight_brace)
  show "\<And>s. accepts endhighlightRegex (replace_g endhighlightRegex fence s) \<Longrightarrow> accepts endhighlightRegex s"
    by (rule endhighlight_back [OF plain_endhighlight])
qed simp_all

lemma clean_highlight_kept:
  assumes "clean highlightRegex t"
  shows "clean highlightRegex (replace_g endhighlightRegex fence t)"
proof (rule clean_replace [where P = "clean highlightRegex", OF plain_endhighlight _ _ _ _ assms])
  show "\<And>c t. accepts highlightRegex (c # t) \<Longrightarrow> c = CHR ''{''" by (rule highlight_brace)
  show "\<And>s. accepts highlightRegex (replace_g endhighlightRegex fence s) \<Longrightarrow> accepts highlightRegex s"
    by (rule highlight_back [OF plain_endhighlight endhighlight_closes])
  show "\<And>x xs. \<not> accepts endhighlightRegex (x # xs) \<Longrightarrow> clean highlightRegex (x # xs)
      \<Longrightarrow> \<not> accepts highlightRegex (x # xs)" by simp
  show "\<And>t n. clean highlightRegex t \<Longrightarrow> clean highlightRegex (drop n t)" by (rule clean_drop)
qed

lemma handleCodeBlocks_idem: "handleCodeBlocks (handleCodeBlocks c) = handleCodeBlocks c"
proof -
  let ?u = "handleCodeBlocks c"
  have u: "?u = replace_g endhighlightRegex fence (replace_g highlightRegex fence c)"
    by (simp add: handleCodeBlocks_def)
  have 1: "clean highlightRegex ?u" unfolding u by (rule clean_highlight_kept [OF clean_highlight])
  have 2: "clean endhighlightRegex ?u" unfolding u by (rule clean_endhighlight)
  have "handleCodeBlocks ?u = replace_g endhighlightRegex fence (replace_g highlightRegex fence ?u)"
    by (simp add: handleCodeBlocks_def)
  also have "replace_g highlightRegex fence ?u = ?u" by (rule clean_fix [OF plain_highlight 1])
  also have "replace_g endhighlightRegex fence ?u = ?u" by (rule clean_fix [OF plain_endhighlight 2])
  finally show ?thesis .
qed

subsection \<open>Patterns that are erased\<close>

lemma search_clean: "plain r \<Longrightarrow> search r b t = None \<longleftrightarrow> clean r t"
proof (induction t arbitrary: b)
  case Nil
  then show ?case by (simp add: plain_Nil)
next
  case (Cons x xs)
  have "match_at r b (x # xs) = match_at r False (x # xs)" using Cons.prems by (rule plain_flag)
  moreover have "search r False xs = None \<longleftrightarrow> clean r xs" using Cons.prems by (rule Cons.IH)
  ultimately show ?case
    using match_at_None_acc [of r "x # xs"] by (auto split: option.splits)
qed

lemma erase_le:
  assumes "plain r"
  shows "length (replace_g r [] t) \<le> length t"
proof (induction "length t" arbitrary: t rule: less_induct)
  case less
  show ?case
  proof (cases t)
    case Nil
    then show ?thesis by (simp add: replace_g_Nil [OF assms])
  next
    case t: (Cons x xs)
    show ?thesis
    proof (cases "accepts r (x # xs)")
      case True
      from replace_hit [OF assms True, of "[]"] obtain n where n: "0 < n" "n \<le> length (x # xs)"
        and e: "replace_g r [] (x # xs) = [] @ replace_g r [] (drop n (x # xs))" by blast
      have "length (replace_g r [] (drop n (x # xs))) \<le> length (drop n (x # xs))"
        using n t by (intro less.hyps) simp
      with e t show ?thesis by simp
    next
      case False
      have "length (replace_g r [] xs) \<le> length xs" using t by (intro less.hyps) simp
      with replace_skip [OF assms False, of "[]"] t show ?thesis by simp
    qed
  qed
qed

lemma erase_less:
  assumes "plain r"
  shows "\<not> clean r t \<Longrightarrow> length (replace_g r [] t) < length t"
proof (induction t)
  case Nil
  then show ?case by simp
next
  case (Cons x xs)
  show ?case
  proof (cases "accepts r (x # xs)")
    case True
    from replace_hit [OF assms True, of "[]"] obtain n where n: "0 < n" "n \<le> length (x # xs)"
      and e: "replace_g r [] (x # xs) = [] @ replace_g r [] (drop n (x # xs))" by blast
    from erase_le [OF assms, of "drop n (x # xs)"] n e show ?thesis by simp
  next
    case False
    with Cons.prems have "\<not> clean r xs" by simp
    from Cons.IH [OF this] replace_skip [OF assms False, of "[]"] show ?thesis by simp
  qed
qed

lemma erase_fixed:
  assumes "plain r"
  shows "replace_g r [] t = t \<longleftrightarrow> search r True t = None"
proof (cases "clean r t")
  case True
  with clean_fix [OF assms True, of "[]"] search_clean [OF assms, of True t] show ?thesis by simp
next
  case False
  from erase_less [OF assms False] have "replace_g r [] t \<noteq> t" by auto
  with False search_clean [OF assms, of True t] show ?thesis by simp
qed

lemma plain_liquidClass: "plain liquidClassRegex"
proof (rule plainI)
  show "anchor_free liquidClassRegex" by (simp add: liquidClassRegex_def)
  fix n c b s
  assume "(n, c) \<in> set (ends liquidClassRegex b s)"
  then have "(n, c) \<in> set (ends (Seq (Lit ''{: '') (seqs [One dot, Plus liquid_class_char, Opt is_space, Lit ''}''])) b s)"
    by (simp only: liquidClassRegex_def seqs.simps)
  then have "length ''{: '' \<le> n" by (rule ends_Lit_Seq_ge)
  then show "0 < n" by simp
qed

lemma plain_siteUrl: "plain siteUrlRegex"
proof (rule plainI)
  show "anchor_free siteUrlRegex" by (simp add: siteUrlRegex_def)
  fix n c b s
  assume "(n, c) \<in> set (ends siteUrlRegex b s)"
  then have "(n, c) \<in> set (ends (Seq (Lit ''{{'') (seqs [Opt is_space, Lit ''site'', One dot, Lit ''baseurl'',
     Opt is_space, Lit ''}}''])) b s)"
    by (simp only: siteUrlRegex_def seqs.simps)
  then have "length ''{{'' \<le> n" by (rule ends_Lit_Seq_ge)
  then show "0 < n" by simp
qed

lemma moveCardImageToContent_twice:
  "moveCardImageToContent p (moveCardImageToContent p c) = moveCardImageToContent p c
   \<longleftrightarrow> (case media p of None \<Rightarrow> True
        | Some m \<Rightarrow> (case card m of None \<Rightarrow> True | Some cd \<Rightarrow> \<not> truthy (url cd)))"
  by (simp add: moveCardImageToContent_def split: option.splits)

lemma handlePostAuthors_twice:
  "handlePostAuthors p (handlePostAuthors p c) = handlePostAuthors p c \<longleftrightarrow> \<not> truthy (author p)"
  by (simp add: handlePostAuthors_def)

subsection \<open>The stages\<close>

text \<open>
  C8, as amended. For every content, collapsing line breaks and converting code
  blocks twice gives what doing it once gives. Stripping liquid classes twice gives
  what stripping them once gives exactly when the pattern has no match in the result
  of the first pass, and the same holds for removing the site URL placeholder.
  Promoting the card image twice gives what promoting it once gives exactly when the
  post has no card image URL (absent, or a value JavaScript takes for false), and
  adding the byline twice gives what adding it once gives exactly when the post has
  no author.
\<close>

theorem stages_idempotent:
  "handleLineBreaks (handleLineBreaks c) = handleLineBreaks c
   \<and> handleCodeBlocks (handleCodeBlocks c) = handleCodeBlocks c
   \<and> (handleLiquidClasses (handleLiquidClasses c) = handleLiquidClasses c
        \<longleftrightarrow> search liquidClassRegex True (handleLiquidClasses c) = None)
   \<and> (handleSiteUrl (handleSiteUrl c) = handleSiteUrl c
        \<longleftrightarrow> search siteUrlRegex True (handleSiteUrl c) = None)
   \<and> (moveCardImageToContent p (moveCardImageToContent p c) = moveCardImageToContent p c
        \<longleftrightarrow> (case media p of None \<Rightarrow> True
             | Some m \<Rightarrow> (case card m of None \<Rightarrow> True | Some cd \<Rightarrow> \<not> truthy (url cd))))
   \<and> (handlePostAuthors p (handlePostAuthors p c) = handlePostAuthors p c \<longleftrightarrow> \<not> truthy (author p))"
proof (intro conjI)
  show "handleLineBreaks (handleLineBreaks c) = handleLineBreaks c" by (rule handleLineBreaks_idem)
  show "handleCodeBlocks (handleCodeBlocks c) = handleCodeBlocks c" by (rule handleCodeBlocks_idem)
  show "handleLiquidClasses (handleLiquidClasses c) = handleLiquidClasses c
        \<longleftrightarrow> search liquidClassRegex True (handleLiquidClasses c) = None"
    using erase_fixed [OF plain_liquidClass, of "handleLiquidClasses c"]
    by (simp only: handleLiquidClasses_def)
  show "handleSiteUrl (handleSiteUrl c) = handleSiteUrl c
        \<longleftrightarrow> search siteUrlRegex True (handleSiteUrl c) = None"
    using erase_fixed [OF plain_siteUrl, of "handleSiteUrl c"]
    by (simp only: handleSiteUrl_def)
  show "moveCardImageToContent p (moveCardImageToContent p c) = moveCardImageToContent p c
        \<longleftrightarrow> (case media p of None \<Rightarrow> True
             | Some m \<Rightarrow> (case card m of None \<Rightarrow> True | Some cd \<Rightarrow> \<not> truthy (url cd)))"
    by (rule moveCardImageToContent_twice)
  show "handlePostAuthors p (handlePostAuthors p c) = handlePostAuthors p c \<longleftrightarrow> \<not> truthy (author p)"
    by (rule handlePostAuthors_twice)
qed

lemma legacy_clean:
  "search liquidClassRegex True (handleLiquidClasses legacy_body) = None
   \<and> search siteUrlRegex True (handleSiteUrl legacy_body) = None"
  by code_simp

text \<open>
  C8, witness: a body with one class annotation and one site URL placeholder, and a
  post with neither author nor card image; every stage gives the same applied twice
  as applied once.
\<close>

theorem stages_idempotent_witness:
  "handleLineBreaks (handleLineBreaks legacy_body) = handleLineBreaks legacy_body
   \<and> handleCodeBlocks (handleCodeBlocks legacy_body) = handleCodeBlocks legacy_body
   \<and> handleLiquidClasses (handleLiquidClasses legacy_body) = handleLiquidClasses legacy_body
   \<and> handleSiteUrl (handleSiteUrl legacy_body) = handleSiteUrl legacy_body
   \<and> moveCardImageToContent hello_post (moveCardImageToContent hello_post legacy_body)
       = moveCardImageToContent hello_post legacy_body
   \<and> handlePostAuthors hello_post (handlePostAuthors hello_post legacy_body)
       = handlePostAuthors hello_post legacy_body"
  using stages_idempotent [of legacy_body hello_post] legacy_clean
  by (simp add: hello_post_def)

text \<open>
  C8, counterexample: in \<open>{: .a{: .b}b}\<close> the first pass removes \<open>{: .b}\<close> and leaves
  \<open>{: .ab}\<close>, which the second pass removes; the site URL placeholder nests the same
  way; for a post with an author and a card image each pass prepends the byline, or
  the image, once more.
\<close>

theorem stages_not_idempotent:
  "handleLiquidClasses (handleLiquidClasses nested_class) \<noteq> handleLiquidClasses nested_class
   \<and> handleSiteUrl (handleSiteUrl nested_siteurl) \<noteq> handleSiteUrl nested_siteurl
   \<and> moveCardImageToContent jane_post (moveCardImageToContent jane_post ''Hello'')
       \<noteq> moveCardImageToContent jane_post ''Hello''
   \<and> handlePostAuthors jane_post (handlePostAuthors jane_post ''Hello'') \<noteq> handlePostAuthors jane_post ''Hello''"
  by code_simp

end
